theory Spec2Isabelle
  imports Main "HOL-Library.AList"
begin

section \<open>The memory the container runs on\<close>

text \<open>
  The source is the class template \<open>vector<T>\<close> of \<open>vector.h\<close>. It manages raw storage
  by hand: \<open>operator new\<close> and \<open>operator delete\<close> acquire and release blocks, placement
  new and destructor calls begin and end the lifetime of the elements in them. The model
  makes that storage explicit.

  \<^item> A block is a list of slots; a slot is \<open>None\<close> while it is raw memory and \<open>Some x\<close>
    while it holds a live element \<open>x\<close>.
  \<^item> The heap lists the allocated blocks under their addresses.
  \<^item> A pointer is null or names a slot of a block (an offset equal to the length of the
    block is the one-past-the-end pointer).
  \<^item> A throwing copy constructor of \<open>T\<close> and a failing \<open>operator new\<close> are driven by two
    fault plans: each call consumes the head of its plan and throws when it is \<open>True\<close>;
    an exhausted plan never throws.
  \<^item> Every construction and destruction of an element is written to a trace, so that
    the order of destructor calls can be stated.
  \<^item> What C++ leaves undefined (reading raw memory, a null or out-of-range access,
    destroying what is not alive, releasing what is not allocated) is the result
    \<open>Undefined\<close>; it is not an exception and no handler catches it.
  \<^item> The width of \<open>std::size_t\<close> and \<open>sizeof(value_type)\<close> are not fixed by the source;
    they are a parameter of the model, the platform. A value of type \<open>std::size_t\<close> is a
    \<open>nat\<close>, and where the source computes a capacity, a size or the number of bytes of a
    request, the result is reduced as the platform reduces it.
\<close>

datatype error = Bad_alloc | Copy_throw | Undefined

datatype pointer = nullptr | Slot nat nat

datatype event = Constructed pointer | Destroyed pointer

text \<open>On the platform \<open>Size_t b s\<close> the type \<open>std::size_t\<close> has \<open>b\<close> bits, so that its
  arithmetic is modulo \<open>2 ^ b\<close>, and \<open>sizeof(value_type)\<close> is \<open>s\<close>; \<open>Size_t 64 4\<close> is a
  \<open>vector<int>\<close> on a common 64-bit platform. \<open>Unbounded\<close> is the idealised platform on
  which no computation in \<open>std::size_t\<close> ever leaves the range.\<close>

datatype platform = Unbounded | Size_t nat nat

record 'a world =
  heap :: "(nat \<times> 'a option list) list"
  alloc_faults :: "bool list"
  copy_faults :: "bool list"
  trace :: "event list"

text \<open>The value of an expression of type \<open>std::size_t\<close>.\<close>

fun size_t :: "platform \<Rightarrow> nat \<Rightarrow> nat" where
  "size_t Unbounded x = x"
| "size_t (Size_t b s) x = x mod 2 ^ b"

text \<open>The block that \<open>operator new(n * sizeof(value_type))\<close> returns, measured in slots:
  the product is computed in \<open>std::size_t\<close>, and the block has room for as many elements
  as its bytes hold.\<close>

fun requested_slots :: "platform \<Rightarrow> nat \<Rightarrow> nat" where
  "requested_slots Unbounded n = n"
| "requested_slots (Size_t b s) n = size_t (Size_t b s) (n * s) div s"

text \<open>Pointer arithmetic: \<open>p + k\<close>, \<open>p - q\<close> (as an unsigned offset), \<open>std::prev\<close> and
  \<open>std::next\<close>. The null pointer has no predecessor and no successor, and nothing but 0
  can be added to it: \<open>ptr_add nullptr k\<close> stands for a pointer through which, as through
  the null pointer, every access is undefined. On a vector whose size is 0 when its
  storage pointer is null (the member functions leave no other), a member function that
  adds more than 0 to a null pointer goes on to access the sum, with one exception:
  \<open>erase(pos)\<close> compares \<open>std::next(pos)\<close> with \<open>end()\<close>. So \<open>std::next\<close> is a function of
  its own, and it is undefined on the null pointer.\<close>

fun ptr_add :: "pointer \<Rightarrow> nat \<Rightarrow> pointer" where
  "ptr_add nullptr k = nullptr"
| "ptr_add (Slot b i) k = Slot b (i + k)"

fun ptr_diff :: "pointer \<Rightarrow> pointer \<Rightarrow> nat option" where
  "ptr_diff nullptr nullptr = Some 0"
| "ptr_diff (Slot b i) (Slot c j) = (if b = c \<and> j \<le> i then Some (i - j) else None)"
| "ptr_diff _ _ = None"


fun ptr_next :: "pointer \<Rightarrow> pointer option" where
  "ptr_next (Slot b i) = Some (Slot b (Suc i))"
| "ptr_next nullptr = None"

text \<open>The head of a fault plan.\<close>

fun next_fault :: "bool list \<Rightarrow> bool" where
  "next_fault [] = False"
| "next_fault (f # fs) = f"

text \<open>An address no allocated block has.\<close>

fun fresh_addr :: "(nat \<times> 'b) list \<Rightarrow> nat" where
  "fresh_addr [] = 0"
| "fresh_addr (e # h) = max (Suc (fst e)) (fresh_addr h)"

text \<open>\<open>operator new\<close> for \<open>n\<close> slots and \<open>operator delete\<close>.\<close>

definition operator_new :: "'a world \<Rightarrow> nat \<Rightarrow> (error + pointer) \<times> 'a world" where
  "operator_new w n =
     (if next_fault (alloc_faults w)
      then (Inl Bad_alloc, w\<lparr>alloc_faults := tl (alloc_faults w)\<rparr>)
      else (Inr (Slot (fresh_addr (heap w)) 0),
            w\<lparr>heap := (fresh_addr (heap w), replicate n None) # heap w,
              alloc_faults := tl (alloc_faults w)\<rparr>))"

definition operator_delete :: "'a world \<Rightarrow> pointer \<Rightarrow> (error + unit) \<times> 'a world" where
  "operator_delete w p =
     (case p of
        nullptr \<Rightarrow> (Inr (), w)
      | Slot b i \<Rightarrow>
          (if i = 0 \<and> map_of (heap w) b \<noteq> None
           then (Inr (), w\<lparr>heap := AList.delete b (heap w)\<rparr>)
           else (Inl Undefined, w)))"

text \<open>Reading \<open>*p\<close>.\<close>

definition load :: "'a world \<Rightarrow> pointer \<Rightarrow> error + 'a" where
  "load w p =
     (case p of
        nullptr \<Rightarrow> Inl Undefined
      | Slot b i \<Rightarrow>
          (case map_of (heap w) b of
             None \<Rightarrow> Inl Undefined
           | Some blk \<Rightarrow>
               (if i < length blk
                then (case blk ! i of None \<Rightarrow> Inl Undefined | Some x \<Rightarrow> Inr x)
                else Inl Undefined)))"

text \<open>The copy constructor of \<open>T\<close>: it yields an equal value or throws.\<close>

definition copy_T :: "'a world \<Rightarrow> 'a \<Rightarrow> (error + 'a) \<times> 'a world" where
  "copy_T w x =
     (if next_fault (copy_faults w)
      then (Inl Copy_throw, w\<lparr>copy_faults := tl (copy_faults w)\<rparr>)
      else (Inr x, w\<lparr>copy_faults := tl (copy_faults w)\<rparr>))"

text \<open>The lifetime of the element in slot \<open>p\<close> begins with the value \<open>x\<close>.\<close>

definition construct_at :: "'a world \<Rightarrow> pointer \<Rightarrow> 'a \<Rightarrow> (error + unit) \<times> 'a world" where
  "construct_at w p x =
     (case p of
        nullptr \<Rightarrow> (Inl Undefined, w)
      | Slot b i \<Rightarrow>
          (case map_of (heap w) b of
             None \<Rightarrow> (Inl Undefined, w)
           | Some blk \<Rightarrow>
               (if i < length blk
                then (Inr (), w\<lparr>heap := AList.update b (blk[i := Some x]) (heap w),
                                trace := trace w @ [Constructed p]\<rparr>)
                else (Inl Undefined, w))))"

text \<open>\<open>new (p) value_type(x)\<close>: the copy constructor runs on the slot \<open>p\<close>.\<close>

definition placement_new :: "'a world \<Rightarrow> pointer \<Rightarrow> 'a \<Rightarrow> (error + unit) \<times> 'a world" where
  "placement_new w p x =
     (case copy_T w x of
        (Inl e, w1) \<Rightarrow> (Inl e, w1)
      | (Inr y, w1) \<Rightarrow> construct_at w1 p y)"

text \<open>The destructor call \<open>p->~value_type()\<close>; destructors do not throw.\<close>

definition destroy_at :: "'a world \<Rightarrow> pointer \<Rightarrow> (error + unit) \<times> 'a world" where
  "destroy_at w p =
     (case p of
        nullptr \<Rightarrow> (Inl Undefined, w)
      | Slot b i \<Rightarrow>
          (case map_of (heap w) b of
             None \<Rightarrow> (Inl Undefined, w)
           | Some blk \<Rightarrow>
               (if i < length blk \<and> blk ! i \<noteq> None
                then (Inr (), w\<lparr>heap := AList.update b (blk[i := None]) (heap w),
                                trace := trace w @ [Destroyed p]\<rparr>)
                else (Inl Undefined, w))))"

text \<open>\<open>std::swap(*p, *q)\<close> on two live elements. Exchanging two elements is taken not
  to throw, as the source's own comments on \<open>insert\<close> and \<open>erase\<close> do.\<close>

definition swap_values :: "'a world \<Rightarrow> pointer \<Rightarrow> pointer \<Rightarrow> (error + unit) \<times> 'a world" where
  "swap_values w p q =
     (case (load w p, load w q) of
        (Inr x, Inr y) \<Rightarrow>
          (case (p, q) of
             (Slot b i, Slot c j) \<Rightarrow>
               (case map_of (heap w) b of
                  None \<Rightarrow> (Inl Undefined, w)
                | Some blk \<Rightarrow>
                    (let h1 = AList.update b (blk[i := Some y]) (heap w) in
                     case map_of h1 c of
                       None \<Rightarrow> (Inl Undefined, w)
                     | Some blk1 \<Rightarrow>
                         (Inr (), w\<lparr>heap := AList.update c (blk1[j := Some x]) h1\<rparr>)))
           | _ \<Rightarrow> (Inl Undefined, w))
      | _ \<Rightarrow> (Inl Undefined, w))"

text \<open>A handler \<open>catch (...) { cleanup; throw; }\<close>: after the cleanup the exception
  \<open>e\<close> is thrown again.\<close>

definition rethrow_after :: "(error + unit) \<times> 'a world \<Rightarrow> error \<Rightarrow> (error + 'r) \<times> 'a world" where
  "rethrow_after c e = (case c of (Inl e', w) \<Rightarrow> (Inl e', w) | (Inr _, w) \<Rightarrow> (Inl e, w))"

section \<open>The container\<close>

text \<open>The three data members \<open>size_\<close>, \<open>capacity_\<close> and \<open>data_\<close>; a field name cannot
  end in an underscore here, so each carries an \<open>m\<close>. A member function takes the
  object and the world and returns, next to its result, what it has made of them.\<close>

record vector =
  size_m :: nat
  capacity_m :: nat
  data_m :: pointer

text \<open>\<open>reverse_destroy_n(begin, n)\<close> runs \<open>std::destroy\<close> over the reversed range:
  the destructors of \<open>begin[n - 1]\<close>, ..., \<open>begin[0]\<close>, in this order.\<close>

fun reverse_destroy_n :: "'a world \<Rightarrow> pointer \<Rightarrow> nat \<Rightarrow> (error + unit) \<times> 'a world" where
  "reverse_destroy_n w begin0 n =
     (if n = 0 then (Inr (), w)
      else (case destroy_at w (ptr_add begin0 (n - 1)) of
              (Inl e, w1) \<Rightarrow> (Inl e, w1)
            | (Inr _, w1) \<Rightarrow> reverse_destroy_n w1 begin0 (n - 1)))"

text \<open>The loop of \<open>uninitialized_copy_n_with_reverse_destroy\<close>, entered at index \<open>i\<close>:
  \<open>cur\<close> is \<open>dest + i\<close> and \<open>from\<close> has been advanced \<open>i\<close> times.\<close>

function uninitialized_copy_loop ::
  "'a world \<Rightarrow> pointer \<Rightarrow> pointer \<Rightarrow> nat \<Rightarrow> nat \<Rightarrow> (error + unit) \<times> 'a world" where
  "uninitialized_copy_loop w dest from i n =
     (if i < n then
        (case load w (ptr_add from i) of
           Inl e \<Rightarrow> (Inl e, w)
         | Inr x \<Rightarrow>
             (case placement_new w (ptr_add dest i) x of
                (Inl e, w1) \<Rightarrow>
                  (if e = Undefined then (Inl e, w1)
                   else rethrow_after (reverse_destroy_n w1 dest i) e)
              | (Inr _, w1) \<Rightarrow> uninitialized_copy_loop w1 dest from (Suc i) n))
      else (Inr (), w))"
  by pat_completeness auto
termination
  by (relation "measure (\<lambda>(w, dest, from, i, n). n - i)") auto

definition uninitialized_copy_n_with_reverse_destroy ::
  "'a world \<Rightarrow> pointer \<Rightarrow> pointer \<Rightarrow> nat \<Rightarrow> (error + unit) \<times> 'a world" where
  "uninitialized_copy_n_with_reverse_destroy w dest from n =
     uninitialized_copy_loop w dest from 0 n"

text \<open>\<open>reallocate\<close> requests \<open>new_capacity * sizeof(value_type)\<close> bytes.\<close>

definition reallocate ::
  "platform \<Rightarrow> vector \<Rightarrow> 'a world \<Rightarrow> nat \<Rightarrow> (error + pointer) \<times> 'a world" where
  "reallocate m v w new_capacity =
     (case operator_new w (requested_slots m new_capacity) of
        (Inl e, w1) \<Rightarrow> (Inl e, w1)
      | (Inr new_data, w1) \<Rightarrow>
          (case uninitialized_copy_n_with_reverse_destroy w1 new_data (data_m v) (size_m v) of
             (Inl e, w2) \<Rightarrow>
               (if e = Undefined then (Inl e, w2)
                else rethrow_after (operator_delete w2 new_data) e)
           | (Inr _, w2) \<Rightarrow> (Inr new_data, w2)))"

definition swap_data ::
  "vector \<Rightarrow> 'a world \<Rightarrow> pointer \<Rightarrow> nat \<Rightarrow> (error + unit) \<times> vector \<times> 'a world" where
  "swap_data v w new_data new_capacity =
     (case reverse_destroy_n w (data_m v) (size_m v) of
        (Inl e, w1) \<Rightarrow> (Inl e, v, w1)
      | (Inr _, w1) \<Rightarrow>
          (case operator_delete w1 (data_m v) of
             (Inl e, w2) \<Rightarrow> (Inl e, v, w2)
           | (Inr _, w2) \<Rightarrow>
               (Inr (), v\<lparr>data_m := new_data, capacity_m := new_capacity\<rparr>, w2)))"

definition begin_vec :: "vector \<Rightarrow> pointer" where
  "begin_vec v = data_m v"

definition end_vec :: "vector \<Rightarrow> pointer" where
  "end_vec v = ptr_add (data_m v) (size_m v)"

definition no_const :: "vector \<Rightarrow> pointer \<Rightarrow> pointer option" where
  "no_const v it = map_option (ptr_add (begin_vec v)) (ptr_diff it (begin_vec v))"

subsection \<open>Construction\<close>

definition vector_default :: vector where
  "vector_default = \<lparr>size_m = 0, capacity_m = 0, data_m = nullptr\<rparr>"

text \<open>\<open>a.swap(b)\<close> returns the new states of \<open>a\<close> and of \<open>b\<close>.\<close>

definition swap :: "vector \<Rightarrow> vector \<Rightarrow> vector \<times> vector" where
  "swap a other =
     (let (a1, other1) = (a\<lparr>data_m := data_m other\<rparr>, other\<lparr>data_m := data_m a\<rparr>);
          (a2, other2) = (a1\<lparr>size_m := size_m other1\<rparr>, other1\<lparr>size_m := size_m a1\<rparr>);
          (a3, other3) = (a2\<lparr>capacity_m := capacity_m other2\<rparr>, other2\<lparr>capacity_m := capacity_m a2\<rparr>)
      in (a3, other3))"

text \<open>The copy constructor: the members are initialised in the order of their
  declaration, \<open>size_\<close>, \<open>capacity_\<close>, \<open>data_\<close>; \<open>operator new\<close> is called only when the
  source has a capacity, and then for \<open>other.size_ * sizeof(value_type)\<close> bytes.\<close>

definition vector_copy :: "platform \<Rightarrow> 'a world \<Rightarrow> vector \<Rightarrow> (error + vector) \<times> 'a world" where
  "vector_copy m w other =
     (case (if capacity_m other \<noteq> 0 then operator_new w (requested_slots m (size_m other))
            else (Inr nullptr, w)) of
        (Inl e, w1) \<Rightarrow> (Inl e, w1)
      | (Inr d, w1) \<Rightarrow>
          (let this = \<lparr>size_m = size_m other, capacity_m = size_m other, data_m = d\<rparr> in
           case uninitialized_copy_n_with_reverse_destroy w1 (data_m this) (data_m other)
                  (size_m other) of
             (Inl e, w2) \<Rightarrow>
               (if e = Undefined then (Inl e, w2)
                else rethrow_after (operator_delete w2 (data_m this)) e)
           | (Inr _, w2) \<Rightarrow> (Inr this, w2)))"

text \<open>The move constructor returns the new object and the state it leaves \<open>other\<close> in.\<close>

definition vector_move :: "vector \<Rightarrow> vector \<times> vector" where
  "vector_move other =
     (\<lparr>size_m = size_m other, capacity_m = capacity_m other, data_m = data_m other\<rparr>,
      other\<lparr>data_m := nullptr, size_m := 0\<rparr>)"

subsection \<open>Observers\<close>

definition size_vec :: "vector \<Rightarrow> nat" where
  "size_vec v = size_m v"

definition capacity :: "vector \<Rightarrow> nat" where
  "capacity v = capacity_m v"

definition empty_vec :: "vector \<Rightarrow> bool" where
  "empty_vec v = (size_vec v = 0)"

text \<open>\<open>operator[]\<close>.\<close>

definition index :: "vector \<Rightarrow> 'a world \<Rightarrow> nat \<Rightarrow> error + 'a" where
  "index v w i = load w (ptr_add (data_m v) i)"

text \<open>What a client reads through \<open>v[0]\<close>, ..., \<open>v[size() - 1]\<close>.\<close>

definition elements :: "vector \<Rightarrow> 'a world \<Rightarrow> (error + 'a) list" where
  "elements v w = map (index v w) [0..<size_vec v]"

subsection \<open>Appending and capacity\<close>

definition push_back ::
  "platform \<Rightarrow> vector \<Rightarrow> 'a world \<Rightarrow> 'a \<Rightarrow> (error + unit) \<times> vector \<times> 'a world" where
  "push_back m v w element =
     (if size_m v = capacity_m v then
        (let new_capacity = size_t m (capacity_m v * 2 + 1) in
         case reallocate m v w new_capacity of
           (Inl e, w1) \<Rightarrow> (Inl e, v, w1)
         | (Inr new_data, w1) \<Rightarrow>
             (case placement_new w1 (ptr_add new_data (size_m v)) element of
                (Inl e, w2) \<Rightarrow>
                  (if e = Undefined then (Inl e, v, w2)
                   else (case reverse_destroy_n w2 new_data (size_m v) of
                           (Inl e', w3) \<Rightarrow> (Inl e', v, w3)
                         | (Inr _, w3) \<Rightarrow>
                             (case rethrow_after (operator_delete w3 new_data) e of
                                (r, w4) \<Rightarrow> (r, v, w4))))
              | (Inr _, w2) \<Rightarrow>
                  (case swap_data v w2 new_data new_capacity of
                     (Inl e, v1, w3) \<Rightarrow> (Inl e, v1, w3)
                   | (Inr _, v1, w3) \<Rightarrow> (Inr (), v1\<lparr>size_m := size_t m (size_m v1 + 1)\<rparr>, w3))))
      else
        (case placement_new w (ptr_add (data_m v) (size_m v)) element of
           (Inl e, w1) \<Rightarrow> (Inl e, v, w1)
         | (Inr _, w1) \<Rightarrow> (Inr (), v\<lparr>size_m := size_t m (size_m v + 1)\<rparr>, w1)))"

text \<open>\<open>pop_back\<close> decrements \<open>size_\<close> first; on an empty vector the unsigned counter
  wraps around and the access is far out of range.\<close>

definition pop_back :: "vector \<Rightarrow> 'a world \<Rightarrow> (error + unit) \<times> vector \<times> 'a world" where
  "pop_back v w =
     (if size_m v = 0 then (Inl Undefined, v, w)
      else (let v1 = v\<lparr>size_m := size_m v - 1\<rparr> in
            case destroy_at w (ptr_add (data_m v1) (size_m v1)) of
              (r, w1) \<Rightarrow> (r, v1, w1)))"

definition reserve ::
  "platform \<Rightarrow> vector \<Rightarrow> 'a world \<Rightarrow> nat \<Rightarrow> (error + unit) \<times> vector \<times> 'a world" where
  "reserve m v w new_capacity =
     (if new_capacity > capacity_m v then
        (case reallocate m v w new_capacity of
           (Inl e, w1) \<Rightarrow> (Inl e, v, w1)
         | (Inr new_data, w1) \<Rightarrow> swap_data v w1 new_data new_capacity)
      else (Inr (), v, w))"

definition shrink_to_fit ::
  "platform \<Rightarrow> vector \<Rightarrow> 'a world \<Rightarrow> (error + unit) \<times> vector \<times> 'a world" where
  "shrink_to_fit m v w =
     (if empty_vec v then (Inr (), v\<lparr>data_m := nullptr, capacity_m := 0\<rparr>, w)
      else if size_m v \<noteq> capacity_m v then
        (case reallocate m v w (size_m v) of
           (Inl e, w1) \<Rightarrow> (Inl e, v, w1)
         | (Inr new_data, w1) \<Rightarrow> swap_data v w1 new_data (size_m v))
      else (Inr (), v, w))"

subsection \<open>Insertion and removal at a position\<close>

text \<open>The space left in the block behind a pointer; the loops that walk forward
  through a block terminate because it shrinks.\<close>

definition room :: "'a world \<Rightarrow> pointer \<Rightarrow> nat" where
  "room w p =
     (case p of
        nullptr \<Rightarrow> 0
      | Slot b i \<Rightarrow> (case map_of (heap w) b of None \<Rightarrow> 0 | Some blk \<Rightarrow> length blk - i))"



text \<open>The loop of \<open>erase\<close>: \<open>while (last_ != end()) std::swap(*(first_++), *(last_++))\<close>;
  it returns the final \<open>first_\<close> and \<open>last_\<close> (here \<open>first_it\<close>, \<open>last_it\<close>).\<close>

function erase_loop ::
  "'a world \<Rightarrow> pointer \<Rightarrow> pointer \<Rightarrow> pointer \<Rightarrow> (error + pointer \<times> pointer) \<times> 'a world" where
  "erase_loop w first_it last_it end0 =
     (if last_it \<noteq> end0 then
        (case swap_values w first_it last_it of
           (Inl e, w1) \<Rightarrow> (Inl e, w1)
         | (Inr _, w1) \<Rightarrow> erase_loop w1 (ptr_add first_it 1) (ptr_add last_it 1) end0)
      else (Inr (first_it, last_it), w))"
  by pat_completeness auto
termination
  by (relation "measure (\<lambda>(w, first_it, last_it, end0). room w last_it)")
    (auto simp: swap_values_def room_def load_def update_conv' Let_def
      split: pointer.splits option.splits sum.splits if_splits)

text \<open>\<open>std::destroy(first, last)\<close>: the destructors run from \<open>first\<close> upwards.\<close>

function destroy_range :: "'a world \<Rightarrow> pointer \<Rightarrow> pointer \<Rightarrow> (error + unit) \<times> 'a world" where
  "destroy_range w first_pos last_pos =
     (if first_pos \<noteq> last_pos then
        (case destroy_at w first_pos of
           (Inl e, w1) \<Rightarrow> (Inl e, w1)
         | (Inr _, w1) \<Rightarrow> destroy_range w1 (ptr_add first_pos 1) last_pos)
      else (Inr (), w))"
  by pat_completeness auto
termination
  by (relation "measure (\<lambda>(w, first_pos, last_pos). room w first_pos)")
    (auto simp: destroy_at_def room_def update_conv'
      split: pointer.splits option.splits if_splits)

definition erase ::
  "vector \<Rightarrow> 'a world \<Rightarrow> pointer \<Rightarrow> pointer \<Rightarrow> (error + pointer) \<times> vector \<times> 'a world" where
  "erase v w first_pos last_pos =
     (case (no_const v first_pos, no_const v last_pos) of
        (Some ret_it, Some last_it0) \<Rightarrow>
          (case erase_loop w ret_it last_it0 (end_vec v) of
             (Inl e, w1) \<Rightarrow> (Inl e, v, w1)
           | (Inr (first_it, last_it), w1) \<Rightarrow>
               (case destroy_range w1 first_it last_it of
                  (Inl e, w2) \<Rightarrow> (Inl e, v, w2)
                | (Inr _, w2) \<Rightarrow>
                    (case ptr_diff first_it (begin_vec v) of
                       None \<Rightarrow> (Inl Undefined, v, w2)
                     | Some n \<Rightarrow> (Inr ret_it, v\<lparr>size_m := n\<rparr>, w2))))
      | _ \<Rightarrow> (Inl Undefined, v, w))"

text \<open>\<open>erase(pos)\<close> is \<open>erase(pos, std::next(pos))\<close>.\<close>

definition erase_pos ::
  "vector \<Rightarrow> 'a world \<Rightarrow> pointer \<Rightarrow> (error + pointer) \<times> vector \<times> 'a world" where
  "erase_pos v w pos =
     (case ptr_next pos of
        None \<Rightarrow> (Inl Undefined, v, w)
      | Some next_pos \<Rightarrow> erase v w pos next_pos)"

section \<open>Vocabulary of the specification\<close>

text \<open>\<open>stores v w xs\<close>: in the world \<open>w\<close> the vector \<open>v\<close> is well formed and holds the
  sequence \<open>xs\<close>. Its size is the length of \<open>xs\<close>; a null storage pointer comes with
  capacity 0; a storage pointer that is not null is the start of an allocated block of
  exactly \<open>capacity_\<close> slots, whose first \<open>size_\<close> slots are the live elements \<open>xs\<close>.\<close>

definition stores :: "vector \<Rightarrow> 'a world \<Rightarrow> 'a list \<Rightarrow> bool" where
  "stores v w xs \<longleftrightarrow>
     size_m v = length xs \<and>
     (case data_m v of
        nullptr \<Rightarrow> capacity_m v = 0 \<and> xs = []
      | Slot b i \<Rightarrow>
          i = 0 \<and>
          (case map_of (heap w) b of
             None \<Rightarrow> False
           | Some blk \<Rightarrow>
               length blk = capacity_m v \<and> length xs \<le> capacity_m v \<and>
               take (length xs) blk = map Some xs))"

text \<open>The invariants of the data model, in the words of the specification:
  \<open>0 <= size <= capacity\<close>, and the storage pointer is null exactly when the capacity is
  0 and otherwise points to a block of exactly \<open>capacity\<close> slots.\<close>

definition invariant :: "vector \<Rightarrow> 'a world \<Rightarrow> bool" where
  "invariant v w \<longleftrightarrow>
     size_m v \<le> capacity_m v \<and>
     (data_m v = nullptr) = (capacity_m v = 0) \<and>
     (case data_m v of
        nullptr \<Rightarrow> True
      | Slot b i \<Rightarrow>
          i = 0 \<and>
          (case map_of (heap w) b of None \<Rightarrow> False | Some blk \<Rightarrow> length blk = capacity_m v))"

text \<open>The heap without the block a pointer points into.\<close>

definition heap_without :: "pointer \<Rightarrow> (nat \<times> 'b) list \<Rightarrow> (nat \<times> 'b) list" where
  "heap_without p h = (case p of nullptr \<Rightarrow> h | Slot b i \<Rightarrow> AList.delete b h)"

text \<open>\<open>n * sizeof(value_type)\<close> is a value of \<open>std::size_t\<close>: the request for \<open>n\<close> elements
  does not wrap around.\<close>

fun representable :: "platform \<Rightarrow> nat \<Rightarrow> bool" where
  "representable Unbounded n = True"
| "representable (Size_t b s) n = (0 < s \<and> n * s < 2 ^ b)"

text \<open>No allocation and no copy construction is planned to fail.\<close>

definition fault_free :: "'a world \<Rightarrow> bool" where
  "fault_free w \<longleftrightarrow> True \<notin> set (alloc_faults w) \<and> True \<notin> set (copy_faults w)"



text \<open>The trace of a bulk construction in the block at \<open>p\<close> that built \<open>j\<close> elements and
  was rolled back: the constructions of \<open>p[0]\<close>, ..., \<open>p[j - 1]\<close>, then the destructions
  of \<open>p[j - 1]\<close>, ..., \<open>p[0]\<close>.\<close>

definition rollback_trace :: "pointer \<Rightarrow> nat \<Rightarrow> event list" where
  "rollback_trace p j =
     map (\<lambda>k. Constructed (ptr_add p k)) [0..<j] @ map (\<lambda>k. Destroyed (ptr_add p k)) (rev [0..<j])"

text \<open>The step \<open>swap_data(reallocate(n), n)\<close> that \<open>reserve\<close> and \<open>shrink_to_fit\<close> share.\<close>

definition relocate ::
  "platform \<Rightarrow> vector \<Rightarrow> 'a world \<Rightarrow> nat \<Rightarrow> (error + unit) \<times> vector \<times> 'a world" where
  "relocate m v w n =
     (case reallocate m v w n of
        (Inl e, w1) \<Rightarrow> (Inl e, v, w1)
      | (Inr new_data, w1) \<Rightarrow> swap_data v w1 new_data n)"

text \<open>The loops are unfolded one step at a time, by hand.\<close>

declare reverse_destroy_n.simps [simp del]
declare uninitialized_copy_loop.simps [simp del]
declare erase_loop.simps [simp del]
declare destroy_range.simps [simp del]

section \<open>The heap and the primitive operations\<close>

text \<open>\<open>operator new\<close> hands out an address that no allocated block has. On a block
  whose first \<open>n\<close> slots are alive \<open>reverse_destroy_n\<close> succeeds and leaves them raw; the
  copy loop, when no copy is planned to throw, fills the destination with the elements of
  the source. A loop that returned normally met no planned fault.\<close>

lemma fresh_addr_above: "k \<in> fst ` set h \<Longrightarrow> k < fresh_addr h"
  by (induction h) (auto simp: less_max_iff_disj)

lemma fresh_addr_notin: "fresh_addr h \<notin> fst ` set h"
  using fresh_addr_above [of "fresh_addr h" h] by auto

lemma map_of_fresh_addr: "map_of h (fresh_addr h) = None"
  by (simp add: map_of_eq_None_iff fresh_addr_notin)

lemma map_of_fresh_neq: "map_of h b = Some blk \<Longrightarrow> fresh_addr h \<noteq> b"
  using map_of_fresh_addr [of h] by auto

lemma copy_loop_empty [simp]: "uninitialized_copy_loop w d f n n = (Inr (), w)"
  by (subst uninitialized_copy_loop.simps) simp

lemma reverse_destroy_0 [simp]: "reverse_destroy_n w p 0 = (Inr (), w)"
  by (subst reverse_destroy_n.simps) simp

lemma destroy_at_live:
  "map_of (heap w) b = Some blk \<Longrightarrow> i < length blk \<Longrightarrow> blk ! i \<noteq> None \<Longrightarrow>
   destroy_at w (Slot b i) =
     (Inr (), w\<lparr>heap := AList.update b (blk[i := None]) (heap w),
                trace := trace w @ [Destroyed (Slot b i)]\<rparr>)"
  by (simp add: destroy_at_def)

lemma reverse_destroy_n_live:
  "map_of (heap w) b = Some blk \<Longrightarrow> n \<le> length blk \<Longrightarrow> \<forall>k<n. blk ! k \<noteq> None \<Longrightarrow>
   reverse_destroy_n w (Slot b 0) n =
     (Inr (), w\<lparr>heap := AList.update b (replicate n None @ drop n blk) (heap w),
                trace := trace w @ map (\<lambda>k. Destroyed (Slot b k)) (rev [0..<n])\<rparr>)"
proof (induction n arbitrary: w blk)
  case 0
  then show ?case by (simp add: update_triv)
next
  case (Suc n)
  let ?w1 = "w\<lparr>heap := AList.update b (blk[n := None]) (heap w),
                trace := trace w @ [Destroyed (Slot b n)]\<rparr>"
  have d: "destroy_at w (Slot b n) = (Inr (), ?w1)"
    using Suc.prems by (simp add: destroy_at_live)
  have m: "map_of (heap ?w1) b = Some (blk[n := None])"
    by (simp add: update_conv')
  have r: "reverse_destroy_n ?w1 (Slot b 0) n =
     (Inr (), ?w1\<lparr>heap := AList.update b (replicate n None @ drop n (blk[n := None])) (heap ?w1),
                trace := trace ?w1 @ map (\<lambda>k. Destroyed (Slot b k)) (rev [0..<n])\<rparr>)"
    using Suc.prems by (intro Suc.IH [OF m]) auto
  have l: "replicate n None @ drop n (blk[n := None]) = replicate (Suc n) None @ drop (Suc n) blk"
  proof -
    have "drop n (blk[n := None]) = None # drop (Suc n) blk"
      using Suc.prems(2) Cons_nth_drop_Suc [of n "blk[n := None]"] by simp
    then show ?thesis by (simp add: replicate_app_Cons_same)
  qed
  show ?case
    by (subst reverse_destroy_n.simps) (simp add: d r l del: reverse_destroy_n.simps replicate_Suc)
qed

lemma no_fault_step:
  "True \<notin> set (take (Suc m) p) \<longleftrightarrow> \<not> next_fault p \<and> True \<notin> set (take m (tl p))"
  by (cases p) auto

lemma placement_new_Inr:
  "placement_new w p x = (Inr u, w1) \<longleftrightarrow>
     \<not> next_fault (copy_faults w) \<and>
     construct_at (w\<lparr>copy_faults := tl (copy_faults w)\<rparr>) p x = (Inr u, w1)"
  by (auto simp: placement_new_def copy_T_def)

lemma construct_at_ok:
  "map_of (heap w) b = Some blk \<Longrightarrow> i < length blk \<Longrightarrow>
   construct_at w (Slot b i) x =
     (Inr (), w\<lparr>heap := AList.update b (blk[i := Some x]) (heap w),
                trace := trace w @ [Constructed (Slot b i)]\<rparr>)"
  by (simp add: construct_at_def)

lemma construct_at_copy_faults:
  "construct_at w p x = (r, w1) \<Longrightarrow> copy_faults w1 = copy_faults w \<and> alloc_faults w1 = alloc_faults w"
  by (auto simp: construct_at_def split: pointer.splits option.splits if_splits)

lemma load_live:
  "map_of (heap w) b = Some blk \<Longrightarrow> i < length blk \<Longrightarrow> blk ! i = Some x \<Longrightarrow>
   load w (Slot b i) = Inr x"
  by (simp add: load_def)

lemma copy_loop_no_fault:
  "uninitialized_copy_loop w d f i n = (Inr u, w') \<Longrightarrow>
   True \<notin> set (take (n - i) (copy_faults w)) \<and>
   copy_faults w' = drop (n - i) (copy_faults w) \<and> alloc_faults w' = alloc_faults w"
proof (induction w d f i n arbitrary: w' rule: uninitialized_copy_loop.induct)
  case (1 w dest "from" i n)
  show ?case
  proof (cases "i < n")
    case False
    with "1.prems" show ?thesis
      by (subst (asm) uninitialized_copy_loop.simps) auto
  next
    case True
    then obtain m where m: "n - i = Suc m" "n - Suc i = m"
      by (metis Suc_diff_Suc)
    from True "1.prems" obtain x w1 where
      l: "load w (ptr_add from i) = Inr x" and
      p: "placement_new w (ptr_add dest i) x = (Inr (), w1)" and
      r: "uninitialized_copy_loop w1 dest from (Suc i) n = (Inr u, w')"
      by (subst (asm) uninitialized_copy_loop.simps)
        (auto simp: rethrow_after_def split: sum.splits prod.splits if_splits)
    from p have nf: "\<not> next_fault (copy_faults w)" and cf: "copy_faults w1 = tl (copy_faults w)"
      and af: "alloc_faults w1 = alloc_faults w"
      using construct_at_copy_faults by (auto simp: placement_new_Inr) fastforce+
    from "1.IH" [OF True l p [symmetric] refl r]
    show ?thesis using nf cf af m by (simp add: no_fault_step drop_Suc)
  qed
qed

lemma copy_loop_ok:
  assumes "map_of (heap w) sb = Some sblk" "map_of (heap w) db = Some dblk" "sb \<noteq> db"
    "n \<le> length sblk" "n \<le> length dblk" "\<forall>k<n. sblk ! k \<noteq> None" "i \<le> n"
    "True \<notin> set (take (n - i) (copy_faults w))"
  shows "uninitialized_copy_loop w (Slot db 0) (Slot sb 0) i n =
     (Inr (), w\<lparr>heap := AList.update db (take i dblk @ drop i (take n sblk) @ drop n dblk) (heap w),
                copy_faults := drop (n - i) (copy_faults w),
                trace := trace w @ map (\<lambda>k. Constructed (Slot db k)) [i..<n]\<rparr>)"
  using assms
proof (induction "n - i" arbitrary: i w dblk)
  case 0
  then have "i = n" by simp
  with 0 show ?case
    by (subst uninitialized_copy_loop.simps) (simp add: update_triv)
next
  case (Suc m)
  then have lt: "i < n" and m: "m = n - Suc i" by auto
  from Suc.prems lt obtain x where x: "sblk ! i = Some x" by auto
  let ?w0 = "w\<lparr>copy_faults := tl (copy_faults w)\<rparr>"
  let ?w1 = "?w0\<lparr>heap := AList.update db (dblk[i := Some x]) (heap ?w0),
                trace := trace ?w0 @ [Constructed (Slot db i)]\<rparr>"
  have nf: "\<not> next_fault (copy_faults w)" "True \<notin> set (take m (tl (copy_faults w)))"
    using Suc.prems(8) Suc.hyps(2) [symmetric] by (simp_all add: no_fault_step)
  have l: "load w (Slot sb i) = Inr x"
    using Suc.prems lt x by (intro load_live) auto
  have p: "placement_new w (Slot db i) x = (Inr (), ?w1)"
    using Suc.prems lt nf by (simp add: placement_new_Inr construct_at_ok)
  have r: "uninitialized_copy_loop ?w1 (Slot db 0) (Slot sb 0) (Suc i) n =
     (Inr (), ?w1\<lparr>heap := AList.update db (take (Suc i) (dblk[i := Some x]) @ drop (Suc i) (take n sblk)
                       @ drop n (dblk[i := Some x])) (heap ?w1),
                copy_faults := drop (n - Suc i) (copy_faults ?w1),
                trace := trace ?w1 @ map (\<lambda>k. Constructed (Slot db k)) [Suc i..<n]\<rparr>)"
    using Suc.prems lt nf m
    by (intro Suc.hyps(1)) (auto simp: update_conv')
  have t: "take (Suc i) (dblk[i := Some x]) @ drop (Suc i) (take n sblk) @ drop n (dblk[i := Some x])
     = take i dblk @ drop i (take n sblk) @ drop n dblk"
  proof -
    have "take (Suc i) (dblk[i := Some x]) = take i dblk @ [Some x]"
      using Suc.prems(5) lt by (simp add: take_Suc_conv_app_nth)
    moreover have "drop i (take n sblk) = Some x # drop (Suc i) (take n sblk)"
      using Suc.prems(4) lt x Cons_nth_drop_Suc [of i "take n sblk"] by simp
    ultimately show ?thesis using lt by simp
  qed
  have d: "drop (n - Suc i) (tl (copy_faults w)) = drop (n - i) (copy_faults w)"
    using lt by (simp add: drop_Suc [symmetric] Suc_diff_Suc)
  have u: "[i..<n] = i # [Suc i..<n]"
    using lt by (simp add: upt_conv_Cons)
  have "uninitialized_copy_loop w (Slot db 0) (Slot sb 0) i n =
      uninitialized_copy_loop ?w1 (Slot db 0) (Slot sb 0) (Suc i) n"
    using lt l p by (subst uninitialized_copy_loop.simps) simp
  also note r
  finally show ?case
    by (simp add: t d u)
qed

section \<open>Relocation into a new block\<close>

text \<open>On a well-formed vector and without a planned fault, \<open>reallocate\<close> returns
  a new block that starts with copies of the elements, and \<open>swap_data\<close> destroys the old
  elements, releases the old block and installs the new one. Here and in the sections
  on appending, reserving and inserting, a fact that depends on the size of the block
  that a request returns is stated for the platform \<open>Unbounded\<close>; the section on requests
  that do not wrap around carries these facts over to the other platforms.\<close>

lemma stores_null:
  "data_m v = nullptr \<Longrightarrow> stores v w xs \<longleftrightarrow> size_m v = 0 \<and> capacity_m v = 0 \<and> xs = []"
  by (auto simp: stores_def)

lemma stores_Slot:
  "data_m v = Slot b i \<Longrightarrow> stores v w xs \<longleftrightarrow>
     i = 0 \<and> size_m v = length xs \<and> length xs \<le> capacity_m v \<and>
     (\<exists>blk. map_of (heap w) b = Some blk \<and> length blk = capacity_m v \<and>
            take (length xs) blk = map Some xs)"
  by (auto simp: stores_def split: option.splits)

lemma take_map_Some_nth:
  "take (length xs) blk = map Some xs \<Longrightarrow> k < length xs \<Longrightarrow> blk ! k = Some (xs ! k)"
  by (metis length_map nth_map nth_take)

lemma reallocate_ok:
  assumes "stores v w xs" "length xs \<le> n" "\<not> next_fault (alloc_faults w)"
    "True \<notin> set (take (length xs) (copy_faults w))"
  shows "reallocate Unbounded v w n =
     (Inr (Slot (fresh_addr (heap w)) 0),
      w\<lparr>heap := (fresh_addr (heap w), map Some xs @ replicate (n - length xs) None) # heap w,
        alloc_faults := tl (alloc_faults w),
        copy_faults := drop (length xs) (copy_faults w),
        trace := trace w @ map (\<lambda>k. Constructed (Slot (fresh_addr (heap w)) k)) [0..<length xs]\<rparr>)"
proof (cases "data_m v")
  case nullptr
  with assms show ?thesis
    by (simp add: stores_null reallocate_def operator_new_def
        uninitialized_copy_n_with_reverse_destroy_def)
next
  case (Slot sb i)
  with assms obtain sblk where s: "i = 0" "size_m v = length xs" "length xs \<le> capacity_m v"
    "map_of (heap w) sb = Some sblk" "length sblk = capacity_m v"
    "take (length xs) sblk = map Some xs"
    by (auto simp: stores_Slot)
  let ?nb = "fresh_addr (heap w)"
  let ?w1 = "w\<lparr>heap := (?nb, replicate n None) # heap w, alloc_faults := tl (alloc_faults w)\<rparr>"
  have nb: "?nb \<noteq> sb" using s(4) by (rule map_of_fresh_neq)
  have live: "\<forall>k<length xs. sblk ! k \<noteq> None"
    using take_map_Some_nth [OF s(6)] by simp
  have c: "uninitialized_copy_loop ?w1 (Slot ?nb 0) (Slot sb 0) 0 (length xs) =
     (Inr (), ?w1\<lparr>heap := AList.update ?nb (take 0 (replicate n None) @ drop 0 (take (length xs) sblk)
                         @ drop (length xs) (replicate n None)) (heap ?w1),
                copy_faults := drop (length xs - 0) (copy_faults ?w1),
                trace := trace ?w1 @ map (\<lambda>k. Constructed (Slot ?nb k)) [0..<length xs]\<rparr>)"
    using assms s nb live by (intro copy_loop_ok) auto
  show ?thesis
    using assms(3) s Slot
    by (simp add: reallocate_def operator_new_def uninitialized_copy_n_with_reverse_destroy_def c)
qed

lemma swap_data_ok:
  assumes "stores v w xs"
  shows "swap_data v w p c =
     (Inr (), v\<lparr>data_m := p, capacity_m := c\<rparr>,
      w\<lparr>heap := heap_without (data_m v) (heap w),
        trace := trace w @ map (\<lambda>k. Destroyed (ptr_add (data_m v) k)) (rev [0..<length xs])\<rparr>)"
proof (cases "data_m v")
  case nullptr
  with assms show ?thesis
    by (simp add: stores_null swap_data_def operator_delete_def heap_without_def)
next
  case (Slot sb i)
  with assms obtain sblk where s: "i = 0" "size_m v = length xs" "length xs \<le> capacity_m v"
    "map_of (heap w) sb = Some sblk" "length sblk = capacity_m v"
    "take (length xs) sblk = map Some xs"
    by (auto simp: stores_Slot)
  have live: "\<forall>k<length xs. sblk ! k \<noteq> None"
    using take_map_Some_nth [OF s(6)] by simp
  have r: "reverse_destroy_n w (Slot sb 0) (length xs) = 
     (Inr (), w\<lparr>heap := AList.update sb (replicate (length xs) None @ drop (length xs) sblk) (heap w),
                trace := trace w @ map (\<lambda>k. Destroyed (Slot sb k)) (rev [0..<length xs])\<rparr>)"
    using s live by (intro reverse_destroy_n_live) auto
  show ?thesis
    using s Slot
    by (simp add: swap_data_def r operator_delete_def update_conv' heap_without_def
        delete_update_same)
qed

section \<open>Appending\<close>


lemma swap_data_vec:
  "swap_data v w p c = (r, v', w') \<Longrightarrow>
   v' = (case r of Inl e \<Rightarrow> v | Inr u \<Rightarrow> v\<lparr>data_m := p, capacity_m := c\<rparr>)"
  by (auto simp: swap_data_def split: prod.splits sum.splits)

lemma operator_new_Inr:
  "operator_new w n = (Inr p, w1) \<Longrightarrow>
   \<not> next_fault (alloc_faults w) \<and> p = Slot (fresh_addr (heap w)) 0 \<and>
   w1 = w\<lparr>heap := (fresh_addr (heap w), replicate n None) # heap w,
          alloc_faults := tl (alloc_faults w)\<rparr>"
  by (auto simp: operator_new_def split: if_splits)

lemma reallocate_Inr_quiet:
  assumes "reallocate Unbounded v w n = (Inr p, w1)"
  shows "\<not> next_fault (alloc_faults w) \<and> True \<notin> set (take (size_m v) (copy_faults w)) \<and>
         copy_faults w1 = drop (size_m v) (copy_faults w)"
proof -
  from assms obtain q w0 u where
    n: "operator_new w n = (Inr q, w0)" and
    c: "uninitialized_copy_loop w0 q (data_m v) 0 (size_m v) = (Inr u, w1)"
    by (auto simp: reallocate_def uninitialized_copy_n_with_reverse_destroy_def rethrow_after_def
        split: prod.splits sum.splits if_splits)
  from operator_new_Inr [OF n] copy_loop_no_fault [OF c] show ?thesis by simp
qed




lemma stores_heap_cong:
  "stores v w xs \<Longrightarrow> (\<And>b i. data_m v = Slot b i \<Longrightarrow> map_of (heap w') b = map_of (heap w) b) \<Longrightarrow>
   stores v w' xs"
  by (cases "data_m v") (auto simp: stores_def)

lemma stores_block_fresh:
  "stores v w xs \<Longrightarrow> data_m v \<noteq> Slot (fresh_addr (heap w)) i"
  using map_of_fresh_addr [of "heap w"]
  by (cases "data_m v") (auto simp: stores_def)

lemma map_of_heap_without:
  "b \<noteq> c \<Longrightarrow> map_of (heap_without (Slot c i) h) b = map_of h b"
  "map_of (heap_without nullptr h) b = map_of h b"
  by (simp_all add: heap_without_def)

lemma storesI:
  "data_m v = Slot b 0 \<Longrightarrow> map_of (heap w) b = Some blk \<Longrightarrow> length blk = capacity_m v \<Longrightarrow>
   size_m v = length xs \<Longrightarrow> length xs \<le> capacity_m v \<Longrightarrow>
   take (length xs) blk = map Some xs \<Longrightarrow> stores v w xs"
  by (simp add: stores_def)






lemma fault_free_drop:
  "fault_free w \<Longrightarrow> alloc_faults w' = drop k (alloc_faults w) \<Longrightarrow>
   copy_faults w' = drop j (copy_faults w) \<Longrightarrow> fault_free w'"
  by (auto simp: fault_free_def dest: in_set_dropD)





lemma stores_elements:
  assumes "stores v w xs"
  shows "size_vec v = length xs \<and> elements v w = map Inr xs"
proof (cases "data_m v")
  case nullptr
  with assms show ?thesis by (simp add: stores_null elements_def size_vec_def)
next
  case (Slot b i)
  with assms obtain blk where s: "i = 0" "size_m v = length xs" "length xs \<le> capacity_m v"
    "map_of (heap w) b = Some blk" "length blk = capacity_m v"
    "take (length xs) blk = map Some xs"
    by (auto simp: stores_Slot)
  have "index v w k = Inr (xs ! k)" if "k < length xs" for k
    using that s Slot take_map_Some_nth [OF s(6) that]
    by (simp add: index_def load_def)
  then show ?thesis
    using s by (auto simp: elements_def size_vec_def intro!: nth_equalityI)
qed

section \<open>What a failed copy leaves behind\<close>

text \<open>These facts need no well-formedness. Every primitive changes at most the
  block of the pointer it is given and reports \<open>Undefined\<close> as its only error; the copy
  loop, when it ends in the exception of a copy constructor, has destroyed what it had
  built, last element first.\<close>

lemma heap_without_ptr_add [simp]: "heap_without (ptr_add p k) h = heap_without p h"
  by (cases p) (simp_all add: heap_without_def)

lemma destroy_at_effect:
  "destroy_at w p = (r, w') \<Longrightarrow>
   heap_without p (heap w') = heap_without p (heap w) \<and>
   copy_faults w' = copy_faults w \<and> alloc_faults w' = alloc_faults w \<and>
   (case r of Inl e \<Rightarrow> e = Undefined | Inr u \<Rightarrow> trace w' = trace w @ [Destroyed p])"
  by (auto simp: destroy_at_def heap_without_def delete_update_same
      split: pointer.splits option.splits if_splits)

lemma construct_at_effect:
  "construct_at w p x = (r, w') \<Longrightarrow>
   heap_without p (heap w') = heap_without p (heap w) \<and>
   copy_faults w' = copy_faults w \<and> alloc_faults w' = alloc_faults w \<and>
   (case r of Inl e \<Rightarrow> e = Undefined \<and> trace w' = trace w
            | Inr u \<Rightarrow> trace w' = trace w @ [Constructed p])"
  by (auto simp: construct_at_def heap_without_def delete_update_same
      split: pointer.splits option.splits if_splits)

lemma placement_new_effect:
  "placement_new w p x = (r, w') \<Longrightarrow>
   heap_without p (heap w') = heap_without p (heap w) \<and>
   (case r of
      Inl e \<Rightarrow> trace w' = trace w \<and> (e = Undefined \<or> e = Copy_throw \<and> heap w' = heap w)
    | Inr u \<Rightarrow> trace w' = trace w @ [Constructed p])"
  by (auto simp: placement_new_def copy_T_def split: if_splits dest!: construct_at_effect
      split: sum.splits)

lemma operator_delete_effect:
  "operator_delete w p = (r, w') \<Longrightarrow>
   trace w' = trace w \<and>
   (case r of Inl e \<Rightarrow> e = Undefined | Inr u \<Rightarrow> heap w' = heap_without p (heap w))"
  by (auto simp: operator_delete_def heap_without_def split: pointer.splits if_splits)

lemma reverse_destroy_n_effect:
  "reverse_destroy_n w p n = (r, w') \<Longrightarrow>
   heap_without p (heap w') = heap_without p (heap w) \<and>
   (case r of
      Inl e \<Rightarrow> e = Undefined
    | Inr u \<Rightarrow> trace w' = trace w @ map (\<lambda>k. Destroyed (ptr_add p k)) (rev [0..<n]))"
proof (induction n arbitrary: w)
  case 0
  then show ?case by auto
next
  case (Suc n)
  obtain r1 w1 where d: "destroy_at w (ptr_add p n) = (r1, w1)"
    by (cases "destroy_at w (ptr_add p n)")
  note e = destroy_at_effect [OF d]
  show ?case
  proof (cases r1)
    case (Inl e1)
    with Suc.prems d e show ?thesis
      by (subst (asm) reverse_destroy_n.simps) auto
  next
    case (Inr u1)
    with Suc.prems d have "reverse_destroy_n w1 p n = (r, w')"
      by (subst (asm) reverse_destroy_n.simps) auto
    from Suc.IH [OF this] e Inr show ?thesis
      by (auto split: sum.splits)
  qed
qed

lemma copy_loop_effect:
  "uninitialized_copy_loop w dest from i n = (r, w') \<Longrightarrow>
   heap_without dest (heap w') = heap_without dest (heap w) \<and>
   (r = Inr () \<longrightarrow> trace w' = trace w @ map (\<lambda>k. Constructed (ptr_add dest k)) [i..<n]) \<and>
   (r = Inl Copy_throw \<longrightarrow>
      (\<exists>j. i \<le> j \<and> j < n \<and>
           trace w' = trace w @ map (\<lambda>k. Constructed (ptr_add dest k)) [i..<j] @
                      map (\<lambda>k. Destroyed (ptr_add dest k)) (rev [0..<j])))"
proof (induction w dest "from" i n arbitrary: r w' rule: uninitialized_copy_loop.induct)
  case (1 w dest "from" i n)
  show ?case
  proof (cases "i < n")
    case False
    with "1.prems" show ?thesis
      by (subst (asm) uninitialized_copy_loop.simps) auto
  next
    case True
    show ?thesis
    proof (cases "load w (ptr_add from i)")
      case (Inl e)
      with True "1.prems" show ?thesis
        by (subst (asm) uninitialized_copy_loop.simps) (auto simp: load_def split: pointer.splits option.splits if_splits)
    next
      case (Inr x)
      obtain r1 w1 where p: "placement_new w (ptr_add dest i) x = (r1, w1)"
        by (cases "placement_new w (ptr_add dest i) x")
      note pe = placement_new_effect [OF p]
      show ?thesis
      proof (cases r1)
        case (Inr u1)
        with True \<open>load w (ptr_add from i) = Inr x\<close> p "1.prems"
        have rec: "uninitialized_copy_loop w1 dest from (Suc i) n = (r, w')"
          by (subst (asm) uninitialized_copy_loop.simps) auto
        from Inr p have p': "(Inr u1, w1) = placement_new w (ptr_add dest i) x" by simp
        note ih = "1.IH" [OF True \<open>load w (ptr_add from i) = Inr x\<close> p' refl rec]
        have u: "[i..<n] = i # [Suc i..<n]"
          using True by (simp add: upt_conv_Cons)
        have "trace w' = trace w @ map (\<lambda>k. Constructed (ptr_add dest k)) [i..<j] @
                      map (\<lambda>k. Destroyed (ptr_add dest k)) (rev [0..<j])"
          if "trace w' = trace w1 @ map (\<lambda>k. Constructed (ptr_add dest k)) [Suc i..<j] @
                      map (\<lambda>k. Destroyed (ptr_add dest k)) (rev [0..<j])" "Suc i \<le> j" for j
          using that pe Inr by (simp add: upt_conv_Cons)
        with ih pe Inr u show ?thesis
          by (auto intro: Suc_leD)
      next
        case (Inl e)
        show ?thesis
        proof (cases "e = Undefined")
          case True
          with \<open>i < n\<close> \<open>load w (ptr_add from i) = Inr x\<close> p Inl "1.prems" pe show ?thesis
            by (subst (asm) uninitialized_copy_loop.simps) auto
        next
          case False
          with \<open>i < n\<close> \<open>load w (ptr_add from i) = Inr x\<close> p Inl "1.prems"
          have rt: "rethrow_after (reverse_destroy_n w1 dest i) e = (r, w')"
            by (subst (asm) uninitialized_copy_loop.simps) auto
          obtain r2 w2 where rd: "reverse_destroy_n w1 dest i = (r2, w2)"
            by (cases "reverse_destroy_n w1 dest i")
          note re = reverse_destroy_n_effect [OF rd]
          from pe Inl False have e: "e = Copy_throw" "trace w1 = trace w" "heap w1 = heap w"
            by auto
          from rt rd re e \<open>i < n\<close> show ?thesis
            by (auto simp: rethrow_after_def split: sum.splits)
        qed
      qed
    qed
  qed
qed

lemma heap_without_fresh:
  "heap_without (Slot (fresh_addr h) i) ((fresh_addr h, blk) # h) = h"
  by (simp add: heap_without_def fresh_addr_notin)

lemma reallocate_effect:
  assumes "reallocate m v w n = (r, w')"
  shows "(r = Inl Copy_throw \<longrightarrow>
            heap w' = heap w \<and>
            (\<exists>j<size_m v. trace w' = trace w @ rollback_trace (Slot (fresh_addr (heap w)) 0) j)) \<and>
         (\<forall>p. r = Inr p \<longrightarrow>
            p = Slot (fresh_addr (heap w)) 0 \<and> heap_without p (heap w') = heap w \<and>
            trace w' = trace w @ map (\<lambda>k. Constructed (ptr_add p k)) [0..<size_m v])"
proof (cases "operator_new w (requested_slots m n)")
  case (Pair r0 w0)
  show ?thesis
  proof (cases r0)
    case (Inl e)
    with Pair assms show ?thesis
      by (auto simp: reallocate_def operator_new_def split: if_splits)
  next
    case (Inr q)
    from operator_new_Inr [OF Pair [unfolded Inr]] have
      q: "q = Slot (fresh_addr (heap w)) 0" and
      w0: "heap w0 = (fresh_addr (heap w), replicate (requested_slots m n) None) # heap w"
        "trace w0 = trace w"
      by simp_all
    obtain r1 w1 where c: "uninitialized_copy_loop w0 q (data_m v) 0 (size_m v) = (r1, w1)"
      by (cases "uninitialized_copy_loop w0 q (data_m v) 0 (size_m v)")
    note ce = copy_loop_effect [OF c]
    have h1: "heap_without q (heap w1) = heap w"
      using ce w0 q by (simp add: heap_without_fresh)
    show ?thesis
    proof (cases r1)
      case (Inr u)
      with Pair \<open>r0 = Inr q\<close> c assms have "r = Inr q" "w' = w1"
        by (auto simp: reallocate_def uninitialized_copy_n_with_reverse_destroy_def)
      with ce Inr h1 q w0 show ?thesis by auto
    next
      case (Inl e)
      show ?thesis
      proof (cases "e = Undefined")
        case True
        with Pair \<open>r0 = Inr q\<close> c Inl assms show ?thesis
          by (auto simp: reallocate_def uninitialized_copy_n_with_reverse_destroy_def)
      next
        case False
        with Pair \<open>r0 = Inr q\<close> c Inl assms
        have rt: "rethrow_after (operator_delete w1 q) e = (r, w')"
          by (auto simp: reallocate_def uninitialized_copy_n_with_reverse_destroy_def)
        obtain r2 w2 where d: "operator_delete w1 q = (r2, w2)"
          by (cases "operator_delete w1 q")
        note de = operator_delete_effect [OF d]
        show ?thesis
        proof (intro conjI impI allI)
          assume ct: "r = Inl Copy_throw"
          with rt d de have "e = Copy_throw" "w' = w2" and r2: "r2 = Inr ()"
            by (auto simp: rethrow_after_def split: sum.splits)
          with de h1 show "heap w' = heap w" by simp
          from ce Inl \<open>e = Copy_throw\<close> obtain j where "j < size_m v"
            "trace w1 = trace w0 @ rollback_trace q j"
            by (auto simp: rollback_trace_def)
          with de \<open>w' = w2\<close> w0 q
          show "\<exists>j<size_m v. trace w' = trace w @ rollback_trace (Slot (fresh_addr (heap w)) 0) j"
            by auto
        next
          fix p assume "r = Inr p"
          with rt show "p = Slot (fresh_addr (heap w)) 0"
            by (auto simp: rethrow_after_def split: prod.splits sum.splits)
        next
          fix p assume "r = Inr p"
          with rt show "heap_without p (heap w') = heap w"
            by (auto simp: rethrow_after_def split: prod.splits sum.splits)
        next
          fix p assume "r = Inr p"
          with rt show "trace w' = trace w @ map (\<lambda>k. Constructed (ptr_add p k)) [0..<size_m v]"
            by (auto simp: rethrow_after_def split: prod.splits sum.splits)
        qed
      qed
    qed
  qed
qed

lemma swap_data_error:
  "swap_data v w p c = (Inl e, v', w') \<Longrightarrow> e = Undefined"
  by (auto simp: swap_data_def split: prod.splits sum.splits
      dest!: reverse_destroy_n_effect operator_delete_effect)

lemma reserve_rollback:
  assumes "reserve m v w n = (Inl Copy_throw, v', w')"
  shows "v' = v \<and> heap w' = heap w \<and>
         (\<exists>j<size_m v. trace w' = trace w @ rollback_trace (Slot (fresh_addr (heap w)) 0) j)"
proof -
  from assms have gt: "capacity_m v < n"
    by (auto simp: reserve_def split: if_splits)
  obtain r1 w1 where r: "reallocate m v w n = (r1, w1)"
    by (cases "reallocate m v w n")
  show ?thesis
  proof (cases r1)
    case (Inl e)
    with assms gt r reallocate_effect [OF r] show ?thesis
      by (auto simp: reserve_def)
  next
    case (Inr p)
    with assms gt r have "swap_data v w1 p n = (Inl Copy_throw, v', w')"
      by (simp add: reserve_def)
    from swap_data_error [OF this] show ?thesis by simp
  qed
qed

lemma push_back_rollback:
  assumes "push_back m v w x = (Inl Copy_throw, v', w')"
  shows "v' = v \<and> heap w' = heap w \<and>
         (\<exists>j\<le>size_m v. trace w' = trace w @ rollback_trace (Slot (fresh_addr (heap w)) 0) j)"
proof (cases "size_m v = capacity_m v")
  case False
  with assms obtain w1 where
    "placement_new w (ptr_add (data_m v) (size_m v)) x = (Inl Copy_throw, w')" "v' = v"
    by (auto simp: push_back_def split: prod.splits sum.splits)
  with placement_new_effect [OF this(1)] show ?thesis
    by (auto simp: rollback_trace_def intro!: exI [of _ 0])
next
  case True
  let ?n = "size_t m (capacity_m v * 2 + 1)"
  obtain r1 w1 where r: "reallocate m v w ?n = (r1, w1)"
    by (cases "reallocate m v w ?n")
  note re = reallocate_effect [OF r]
  show ?thesis
  proof (cases r1)
    case (Inl e)
    with assms True r have "r1 = Inl Copy_throw" "v' = v" "w' = w1"
      by (auto simp: push_back_def Let_def)
    with re show ?thesis by (auto intro: less_imp_le)
  next
    case (Inr p)
    with re have p: "p = Slot (fresh_addr (heap w)) 0" "heap_without p (heap w1) = heap w"
      "trace w1 = trace w @ map (\<lambda>k. Constructed (ptr_add p k)) [0..<size_m v]"
      by auto
    obtain r2 w2 where n: "placement_new w1 (ptr_add p (size_m v)) x = (r2, w2)"
      by (cases "placement_new w1 (ptr_add p (size_m v)) x")
    note ne = placement_new_effect [OF n]
    show ?thesis
    proof (cases r2)
      case (Inr u)
      with assms True r \<open>r1 = Inr p\<close> n obtain v1 where
        "swap_data v w2 p ?n = (Inl Copy_throw, v1, w')"
        by (auto simp: push_back_def Let_def split: prod.splits sum.splits)
      from swap_data_error [OF this] show ?thesis by simp
    next
      case (Inl e)
      with assms True r \<open>r1 = Inr p\<close> n have ne': "e \<noteq> Undefined"
        by (auto simp: push_back_def Let_def)
      with ne Inl have e: "e = Copy_throw" "heap w2 = heap w1" "trace w2 = trace w1"
        by auto
      obtain r3 w3 where d: "reverse_destroy_n w2 p (size_m v) = (r3, w3)"
        by (cases "reverse_destroy_n w2 p (size_m v)")
      note de = reverse_destroy_n_effect [OF d]
      from assms True r \<open>r1 = Inr p\<close> n Inl ne' d de have
        r3: "r3 = Inr ()" and rt: "rethrow_after (operator_delete w3 p) e = (Inl Copy_throw :: error + unit, w')"
        and v': "v' = v"
        by (auto simp: push_back_def Let_def split: prod.splits sum.splits)
      obtain r4 w4 where od: "operator_delete w3 p = (r4, w4)"
        by (cases "operator_delete w3 p")
      note oe = operator_delete_effect [OF od]
      from rt od oe have w4: "w' = w4" "r4 = Inr ()"
        by (auto simp: rethrow_after_def split: sum.splits)
      have "heap w' = heap w"
        using w4 oe de e p by simp
      moreover have "trace w' = trace w @ rollback_trace p (size_m v)"
        using w4 oe de r3 e p by (simp add: rollback_trace_def)
      ultimately show ?thesis
        using v' p(1) by auto
    qed
  qed
qed

lemma vector_copy_rollback:
  assumes "vector_copy m w other = (Inl Copy_throw, w')"
  shows "heap w' = heap w \<and>
         (\<exists>j<size_m other. trace w' = trace w @
            rollback_trace (if capacity_m other \<noteq> 0 then Slot (fresh_addr (heap w)) 0 else nullptr) j)"
proof -
  let ?d = "if capacity_m other \<noteq> 0 then Slot (fresh_addr (heap w)) 0 else nullptr"
  obtain r0 w0 where
    a: "(if capacity_m other \<noteq> 0 then operator_new w (requested_slots m (size_m other))
         else (Inr nullptr, w)) = (r0, w0)"
    by (cases "if capacity_m other \<noteq> 0 then operator_new w (requested_slots m (size_m other))
         else (Inr nullptr, w)")
  from assms a obtain d where r0: "r0 = Inr d"
    by (cases r0) (auto simp: vector_copy_def operator_new_def split: if_splits)
  from a r0 have d: "d = ?d" "heap_without d (heap w0) = heap w" "trace w0 = trace w"
    by (auto simp: heap_without_def fresh_addr_notin dest!: operator_new_Inr split: if_splits)
  obtain r1 w1 where c: "uninitialized_copy_loop w0 d (data_m other) 0 (size_m other) = (r1, w1)"
    by (cases "uninitialized_copy_loop w0 d (data_m other) 0 (size_m other)")
  note ce = copy_loop_effect [OF c]
  from assms a r0 c obtain e where r1: "r1 = Inl e" "e \<noteq> Undefined"
    and rt: "rethrow_after (operator_delete w1 d) e = (Inl Copy_throw :: error + vector, w')"
    by (cases r1) (auto simp: vector_copy_def uninitialized_copy_n_with_reverse_destroy_def Let_def
        split: if_splits)
  obtain r2 w2 where od: "operator_delete w1 d = (r2, w2)"
    by (cases "operator_delete w1 d")
  note oe = operator_delete_effect [OF od]
  from rt od oe have w2: "w' = w2" "r2 = Inr ()" "e = Copy_throw"
    by (auto simp: rethrow_after_def split: sum.splits)
  have "heap w' = heap w"
    using w2 oe ce d by simp
  moreover from ce r1 w2 obtain j where "j < size_m other" "trace w1 = trace w0 @ rollback_trace d j"
    by (auto simp: rollback_trace_def)
  ultimately show ?thesis
    using w2 oe d by auto
qed

section \<open>Reserving and shrinking\<close>

text \<open>\<open>reserve\<close> and \<open>shrink_to_fit\<close> are \<open>relocate\<close> behind a test.\<close>

lemma reserve_relocate:
  "reserve m v w n = (if capacity_m v < n then relocate m v w n else (Inr (), v, w))"
  by (simp add: reserve_def relocate_def)

lemma shrink_to_fit_relocate:
  "shrink_to_fit m v w =
     (if size_m v = 0 then (Inr (), v\<lparr>data_m := nullptr, capacity_m := 0\<rparr>, w)
      else if size_m v \<noteq> capacity_m v then relocate m v w (size_m v) else (Inr (), v, w))"
  by (simp add: shrink_to_fit_def relocate_def empty_vec_def size_vec_def)

lemma relocate_ok:
  assumes st: "stores v w xs" and n: "length xs \<le> n" and nf: "\<not> next_fault (alloc_faults w)"
    "True \<notin> set (take (length xs) (copy_faults w))"
  shows "\<exists>w'. relocate Unbounded v w n =
           (Inr (), v\<lparr>data_m := Slot (fresh_addr (heap w)) 0, capacity_m := n\<rparr>, w') \<and>
         stores (v\<lparr>data_m := Slot (fresh_addr (heap w)) 0, capacity_m := n\<rparr>) w' xs \<and>
         alloc_faults w' = drop 1 (alloc_faults w) \<and>
         copy_faults w' = drop (length xs) (copy_faults w)"
proof -
  let ?nb = "fresh_addr (heap w)"
  let ?blk = "map Some xs @ replicate (n - length xs) None"
  let ?w1 = "w\<lparr>heap := (?nb, ?blk) # heap w,
        alloc_faults := tl (alloc_faults w),
        copy_faults := drop (length xs) (copy_faults w),
        trace := trace w @ map (\<lambda>k. Constructed (Slot ?nb k)) [0..<length xs]\<rparr>"
  have r: "reallocate Unbounded v w n = (Inr (Slot ?nb 0), ?w1)"
    using st n nf by (rule reallocate_ok)
  have st1: "stores v ?w1 xs"
    using stores_block_fresh [OF st] by (intro stores_heap_cong [OF st]) auto
  let ?v' = "v\<lparr>data_m := Slot ?nb 0, capacity_m := n\<rparr>"
  let ?w2 = "?w1\<lparr>heap := heap_without (data_m v) (heap ?w1),
        trace := trace ?w1 @ map (\<lambda>k. Destroyed (ptr_add (data_m v) k)) (rev [0..<length xs])\<rparr>"
  have s: "swap_data v ?w1 (Slot ?nb 0) n = (Inr (), ?v', ?w2)"
    by (rule swap_data_ok [OF st1])
  have rl: "relocate Unbounded v w n = (Inr (), ?v', ?w2)"
    by (simp only: relocate_def r s prod.case sum.case)
  have m: "map_of (heap ?w2) ?nb = Some ?blk"
    using stores_block_fresh [OF st]
    by (cases "data_m v") (auto simp: heap_without_def)
  have st2: "stores ?v' ?w2 xs"
    using st n by (intro storesI [OF _ m]) (simp_all add: stores_def)
  show ?thesis
    using rl st2 by (intro exI [of _ ?w2]) (simp add: drop_Suc)
qed

lemma relocate_Inr_quiet:
  assumes "relocate Unbounded v w n = (Inr u, v', w')"
  shows "\<not> next_fault (alloc_faults w) \<and> True \<notin> set (take (size_m v) (copy_faults w))"
proof -
  from assms obtain p w1 where "reallocate Unbounded v w n = (Inr p, w1)"
    by (auto simp: relocate_def split: prod.splits sum.splits)
  from reallocate_Inr_quiet [OF this] show ?thesis by simp
qed

lemma relocate_stores:
  assumes "relocate Unbounded v w n = (Inr u, v', w')" "stores v w xs" "length xs \<le> n"
  shows "v' = v\<lparr>data_m := Slot (fresh_addr (heap w)) 0, capacity_m := n\<rparr> \<and> stores v' w' xs"
proof -
  from assms(2) have sz: "size_m v = length xs" by (simp add: stores_def)
  have "\<not> next_fault (alloc_faults w)" "True \<notin> set (take (length xs) (copy_faults w))"
    using relocate_Inr_quiet [OF assms(1)] unfolding sz by simp_all
  from relocate_ok [OF assms(2,3) this] assms(1) show ?thesis by auto
qed

lemma relocate_fault_free:
  assumes "stores v w xs" "length xs \<le> n" "fault_free w"
  shows "\<exists>v' w'. relocate Unbounded v w n = (Inr (), v', w') \<and> fault_free w'"
proof -
  from assms(3) have "\<not> next_fault (alloc_faults w)"
    by (cases "alloc_faults w") (auto simp: fault_free_def)
  moreover from assms(3) have "True \<notin> set (take (length xs) (copy_faults w))"
    unfolding fault_free_def by (meson in_set_takeD)
  ultimately have "\<not> next_fault (alloc_faults w)" "True \<notin> set (take (length xs) (copy_faults w))"
    by blast+
  from relocate_ok [OF assms(1,2) this] fault_free_drop [OF assms(3)] show ?thesis
    by blast
qed

section \<open>Erasing and inserting\<close>

text \<open>The two loops of \<open>erase\<close> and the loop of \<open>insert\<close> on a block whose slots
  below the end are alive: they return normally, and the block afterwards is described
  by \<open>take\<close> and \<open>drop\<close> of the block before.\<close>

lemma swap_values_ok:
  assumes "map_of (heap w) b = Some blk" "i < length blk" "j < length blk"
    "blk ! i \<noteq> None" "blk ! j \<noteq> None"
  shows "swap_values w (Slot b i) (Slot b j) =
     (Inr (), w\<lparr>heap := AList.update b (blk[i := blk ! j, j := blk ! i]) (heap w)\<rparr>)"
proof -
  from assms obtain x y where xy: "blk ! i = Some x" "blk ! j = Some y" by auto
  with assms show ?thesis
    by (simp add: swap_values_def load_def update_conv')
qed

lemma erase_loop_ok:
  assumes "map_of (heap w) b = Some blk" "f \<le> l" "l \<le> e" "e \<le> length blk"
    "\<forall>k<e. blk ! k \<noteq> None"
  shows "\<exists>blk'. erase_loop w (Slot b f) (Slot b l) (Slot b e) =
           (Inr (Slot b (f + (e - l)), Slot b e), w\<lparr>heap := AList.update b blk' (heap w)\<rparr>) \<and>
         length blk' = length blk \<and>
         take (f + (e - l)) blk' = take f blk @ drop l (take e blk) \<and>
         (\<forall>k<e. blk' ! k \<noteq> None) \<and> drop e blk' = drop e blk"
  using assms
proof (induction "e - l" arbitrary: w blk f l)
  case 0
  then have "l = e" by simp
  with 0 show ?case
    by (intro exI [of _ blk]) (subst erase_loop.simps, simp add: update_triv)
next
  case (Suc m)
  then have lt: "l < e" and m: "m = e - Suc l" by auto
  let ?blk1 = "blk[f := blk ! l, l := blk ! f]"
  let ?w1 = "w\<lparr>heap := AList.update b ?blk1 (heap w)\<rparr>"
  have sw: "swap_values w (Slot b f) (Slot b l) = (Inr (), ?w1)"
    using Suc.prems lt by (intro swap_values_ok) auto
  have live1: "\<forall>k<e. ?blk1 ! k \<noteq> None"
    using Suc.prems lt by (auto simp: nth_list_update)
  have m1: "map_of (heap ?w1) b = Some ?blk1"
    by (simp add: update_conv')
  have a: "Suc f \<le> Suc l" "Suc l \<le> e" "e \<le> length ?blk1"
    using Suc.prems lt by simp_all
  note ih = Suc.hyps(1) [OF m m1 a live1]
  then obtain blk' where
    r: "erase_loop ?w1 (Slot b (Suc f)) (Slot b (Suc l)) (Slot b e) =
           (Inr (Slot b (Suc f + (e - Suc l)), Slot b e),
            ?w1\<lparr>heap := AList.update b blk' (heap ?w1)\<rparr>)" and
    p: "length blk' = length ?blk1"
       "take (Suc f + (e - Suc l)) blk' = take (Suc f) ?blk1 @ drop (Suc l) (take e ?blk1)"
       "\<forall>k<e. blk' ! k \<noteq> None" "drop e blk' = drop e ?blk1"
    by blast
  have ix: "Suc f + (e - Suc l) = f + (e - l)"
    using lt by simp
  have t1: "take (Suc f) ?blk1 = take f blk @ [blk ! l]"
  proof (cases "f = l")
    case True
    with Suc.prems lt show ?thesis by (simp add: take_Suc_conv_app_nth)
  next
    case False
    with Suc.prems lt have "f < l" by simp
    with Suc.prems lt show ?thesis
      by (simp add: take_Suc_conv_app_nth list_update_swap [of f l])
  qed
  have t2: "drop (Suc l) (take e ?blk1) = drop (Suc l) (take e blk)"
    using Suc.prems lt by (simp add: drop_take)
  have t3: "drop l (take e blk) = blk ! l # drop (Suc l) (take e blk)"
    using Suc.prems lt Cons_nth_drop_Suc [of l "take e blk"] by simp
  have e1: "erase_loop w (Slot b f) (Slot b l) (Slot b e) =
      erase_loop ?w1 (Slot b (Suc f)) (Slot b (Suc l)) (Slot b e)"
    using lt sw by (subst erase_loop.simps) simp
  show ?case
  proof (intro exI [of _ blk'] conjI)
    show "erase_loop w (Slot b f) (Slot b l) (Slot b e) =
      (Inr (Slot b (f + (e - l)), Slot b e), w\<lparr>heap := AList.update b blk' (heap w)\<rparr>)"
      unfolding e1 r ix by simp
    show "length blk' = length blk" using p by simp
    show "take (f + (e - l)) blk' = take f blk @ drop l (take e blk)"
      using p(2) unfolding ix t1 t2 t3 by simp
    show "\<forall>k<e. blk' ! k \<noteq> None" by (rule p(3))
    show "drop e blk' = drop e blk" using p(4) Suc.prems lt by simp
  qed
qed

lemma destroy_range_ok:
  assumes "map_of (heap w) b = Some blk" "i \<le> j" "j \<le> length blk"
    "\<forall>k<j. i \<le> k \<longrightarrow> blk ! k \<noteq> None"
  shows "destroy_range w (Slot b i) (Slot b j) =
     (Inr (), w\<lparr>heap := AList.update b (take i blk @ replicate (j - i) None @ drop j blk) (heap w),
                trace := trace w @ map (\<lambda>k. Destroyed (Slot b k)) [i..<j]\<rparr>)"
  using assms
proof (induction "j - i" arbitrary: w blk i)
  case 0
  then have "i = j" by simp
  with 0 show ?case
    by (subst destroy_range.simps) (simp add: update_triv)
next
  case (Suc m)
  then have lt: "i < j" and m: "m = j - Suc i" by auto
  let ?blk1 = "blk[i := None]"
  let ?w1 = "w\<lparr>heap := AList.update b ?blk1 (heap w), trace := trace w @ [Destroyed (Slot b i)]\<rparr>"
  have d: "destroy_at w (Slot b i) = (Inr (), ?w1)"
    using Suc.prems lt by (intro destroy_at_live) auto
  have m1: "map_of (heap ?w1) b = Some ?blk1"
    by (simp add: update_conv')
  have a: "Suc i \<le> j" "j \<le> length ?blk1" "\<forall>k<j. Suc i \<le> k \<longrightarrow> ?blk1 ! k \<noteq> None"
    using Suc.prems lt by simp_all
  note r = Suc.hyps(1) [OF m m1 a]
  have t: "take (Suc i) ?blk1 @ replicate (j - Suc i) None @ drop j ?blk1 =
      take i blk @ replicate (j - i) None @ drop j blk"
  proof -
    have "take (Suc i) ?blk1 = take i blk @ [None]"
      using Suc.prems lt by (simp add: take_Suc_conv_app_nth)
    moreover have "replicate (j - i) None = (None :: 'a option) # replicate (j - Suc i) None"
      using lt by (simp add: Suc_diff_Suc flip: replicate_Suc)
    ultimately show ?thesis using lt by simp
  qed
  have e1: "destroy_range w (Slot b i) (Slot b j) = destroy_range ?w1 (Slot b (Suc i)) (Slot b j)"
    using lt d by (subst destroy_range.simps) simp
  show ?case
    unfolding e1 r t using lt by (simp add: upt_conv_Cons)
qed


lemma ptr_add_add [simp]: "ptr_add (ptr_add p a) c = ptr_add p (a + c)"
  by (cases p) simp_all

lemma ptr_add_0 [simp]: "ptr_add p 0 = p"
  by (cases p) simp_all



lemma erase_ok:
  assumes st: "stores v w xs" and r: "fi \<le> li" "li \<le> length xs"
  shows "\<exists>w'. erase v w (ptr_add (begin_vec v) fi) (ptr_add (begin_vec v) li) =
           (Inr (ptr_add (begin_vec v) fi), v\<lparr>size_m := length xs - (li - fi)\<rparr>, w') \<and>
         stores (v\<lparr>size_m := length xs - (li - fi)\<rparr>) w' (take fi xs @ drop li xs) \<and>
         (fi = li \<longrightarrow> w' = w)"
proof (cases "data_m v")
  case nullptr
  with st r have z: "xs = []" "fi = 0" "li = 0" "size_m v = 0"
    by (auto simp: stores_null)
  have e: "erase_loop w nullptr nullptr nullptr = (Inr (nullptr, nullptr), w)"
    by (subst erase_loop.simps) simp
  have d: "destroy_range w nullptr nullptr = (Inr (), w)"
    by (subst destroy_range.simps) simp
  have er: "erase v w nullptr nullptr = (Inr nullptr, v\<lparr>size_m := 0\<rparr>, w)"
    using nullptr by (simp add: erase_def no_const_def begin_vec_def end_vec_def e d z(4))
  have v: "v\<lparr>size_m := 0\<rparr> = v"
    using z(4) by (cases v) simp
  have p: "ptr_add (begin_vec v) fi = nullptr" "ptr_add (begin_vec v) li = nullptr"
    "length xs - (li - fi) = 0" "take fi xs @ drop li xs = xs"
    using nullptr z by (simp_all add: begin_vec_def)
  show ?thesis
  proof (intro exI [of _ w] conjI impI)
    show "erase v w (ptr_add (begin_vec v) fi) (ptr_add (begin_vec v) li) =
        (Inr (ptr_add (begin_vec v) fi), v\<lparr>size_m := length xs - (li - fi)\<rparr>, w)"
      by (simp only: p er)
    show "stores (v\<lparr>size_m := length xs - (li - fi)\<rparr>) w (take fi xs @ drop li xs)"
      by (simp only: p v st)
    show "w = w" by (rule refl)
  qed
next
  case (Slot b i)
  with st obtain blk where s: "i = 0" "size_m v = length xs" "length xs \<le> capacity_m v"
    "map_of (heap w) b = Some blk" "length blk = capacity_m v"
    "take (length xs) blk = map Some xs"
    by (auto simp: stores_Slot)
  let ?e = "length xs" and ?n = "fi + (length xs - li)"
  have live: "\<forall>k<?e. blk ! k \<noteq> None"
    using take_map_Some_nth [OF s(6)] by simp
  from erase_loop_ok [OF s(4) r(1) r(2) _ live] s obtain blk' where
    el: "erase_loop w (Slot b fi) (Slot b li) (Slot b ?e) =
           (Inr (Slot b ?n, Slot b ?e), w\<lparr>heap := AList.update b blk' (heap w)\<rparr>)" and
    p: "length blk' = length blk" "take ?n blk' = take fi blk @ drop li (take ?e blk)"
       "\<forall>k<?e. blk' ! k \<noteq> None" "drop ?e blk' = drop ?e blk"
    by auto
  let ?w1 = "w\<lparr>heap := AList.update b blk' (heap w)\<rparr>"
  let ?blk2 = "take ?n blk' @ replicate (?e - ?n) None @ drop ?e blk'"
  let ?w2 = "?w1\<lparr>heap := AList.update b ?blk2 (heap ?w1),
        trace := trace ?w1 @ map (\<lambda>k. Destroyed (Slot b k)) [?n..<?e]\<rparr>"
  have m1: "map_of (heap ?w1) b = Some blk'"
    by (simp add: update_conv')
  have a: "?n \<le> ?e" "?e \<le> length blk'" "\<forall>k<?e. ?n \<le> k \<longrightarrow> blk' ! k \<noteq> None"
    using r s p by simp_all
  note dr = destroy_range_ok [OF m1 a]
  have nc: "no_const v (Slot b fi) = Some (Slot b fi)" "no_const v (Slot b li) = Some (Slot b li)"
    "end_vec v = Slot b ?e" "ptr_diff (Slot b ?n) (begin_vec v) = Some ?n"
    using Slot s by (simp_all add: no_const_def begin_vec_def end_vec_def)
  let ?v' = "v\<lparr>size_m := length xs - (li - fi)\<rparr>"
  have n: "?n = length xs - (li - fi)"
    using r by simp
  have er: "erase v w (Slot b fi) (Slot b li) = (Inr (Slot b fi), v\<lparr>size_m := ?n\<rparr>, ?w2)"
    by (simp only: erase_def nc el dr prod.case sum.case option.case)
  have m2: "map_of (heap ?w2) b = Some ?blk2"
    by (simp add: update_conv')
  have tk: "take ?n ?blk2 = map Some (take fi xs @ drop li xs)"
  proof -
    have "take fi blk = map Some (take fi xs)"
    proof -
      have "take fi blk = take fi (take (length xs) blk)"
        using r by (simp add: min_def)
      then show ?thesis
        by (simp only: s(6) take_map)
    qed
    moreover have "drop li (take ?e blk) = map Some (drop li xs)"
      using s(6) by (simp add: drop_map)
    ultimately show ?thesis
      using p(1,2) r s by simp
  qed
  have st2: "stores ?v' ?w2 (take fi xs @ drop li xs)"
    using Slot s r p(1) tk unfolding n [symmetric]
    by (intro storesI [OF _ m2]) auto
  have noop: "?w2 = w" if "fi = li"
  proof -
    from that r have ne: "?n = ?e" by simp
    have "take fi blk = take fi (take ?e blk)"
      using r by (simp add: min_def)
    then have "take fi blk @ drop fi (take ?e blk) = take ?e blk"
      by (simp only: append_take_drop_id)
    with p(2) ne that have te: "take ?e blk' = take ?e blk"
      by simp
    have "blk' = take ?e blk' @ drop ?e blk'"
      by simp
    also have "\<dots> = take ?e blk @ drop ?e blk"
      by (simp only: te p(4))
    finally have "blk' = blk"
      by simp
    with ne s(4) show ?thesis
      by (simp add: update_triv)
  qed
  have bp: "ptr_add (begin_vec v) fi = Slot b fi" "ptr_add (begin_vec v) li = Slot b li"
    using Slot s by (simp_all add: begin_vec_def)
  show ?thesis
  proof (intro exI [of _ ?w2] conjI impI)
    show "erase v w (ptr_add (begin_vec v) fi) (ptr_add (begin_vec v) li) =
        (Inr (ptr_add (begin_vec v) fi), ?v', ?w2)"
      by (simp only: bp er n)
    show "stores ?v' ?w2 (take fi xs @ drop li xs)"
      by (rule st2)
    show "?w2 = w" if "fi = li"
      using that by (rule noop)
  qed
qed






lemma stores_index:
  assumes "stores v w xs" "k < length xs"
  shows "index v w k = Inr (xs ! k)"
proof -
  from stores_elements [OF assms(1)] have a: "size_vec v = length xs"
    and b: "elements v w = map Inr xs"
    by simp_all
  have "map (index v w) [0..<length xs] = map Inr xs"
    using b unfolding elements_def a .
  then have "map (index v w) [0..<length xs] ! k = map Inr xs ! k"
    by (simp only:)
  with assms(2) show ?thesis by simp
qed

section \<open>Observers and sequences of calls\<close>

lemma swap_eq: "swap a b = (b, a)"
  by (simp add: swap_def)

lemma load_heap: "heap w' = heap w \<Longrightarrow> load w' p = load w p"
  by (cases p) (simp_all add: load_def)

lemma elements_heap:
  assumes "heap w' = heap w"
  shows "elements v w' = elements v w"
proof -
  have "index v w' = index v w"
    by (rule ext) (simp only: index_def load_heap [OF assms])
  then show ?thesis
    by (simp only: elements_def)
qed



section \<open>Requests that do not wrap around\<close>

text \<open>A request that is representable on a platform is served there as it is on the
  platform \<open>Unbounded\<close>. A call all of whose requests are representable therefore has the
  same result on both; for a sequence of \<open>push_back\<close> calls on a vector whose capacity is
  at most twice its size this is the case when twice the final size is representable.
  A request that wraps around is served with a smaller block. A copy loop that returns
  normally has found room for every element in its destination; so a \<open>reserve\<close> that
  returns normally has moved the elements to a block that holds them all, whatever the
  capacity it has recorded.\<close>

lemma requested_slots_representable: "representable m n \<Longrightarrow> requested_slots m n = n"
  by (cases m) simp_all

lemma requested_slots_0 [simp]: "requested_slots m 0 = 0"
  by (cases m) simp_all

lemma representable_less: "0 < s \<Longrightarrow> n * s < k \<Longrightarrow> n < (k::nat)"
  by (cases s) (auto elim: le_less_trans [rotated])

lemma size_t_representable: "representable m n \<Longrightarrow> size_t m n = n"
  by (cases m) (auto dest: representable_less)


lemma reallocate_representable:
  "representable m n \<Longrightarrow> reallocate m v w n = reallocate Unbounded v w n"
  by (simp only: reallocate_def requested_slots_representable requested_slots.simps)

lemma reserve_representable:
  "representable m n \<Longrightarrow> reserve m v w n = reserve Unbounded v w n"
  by (simp only: reserve_def reallocate_representable)

lemma vector_copy_representable:
  "representable m (size_m other) \<Longrightarrow> vector_copy m w other = vector_copy Unbounded w other"
  by (simp only: vector_copy_def requested_slots_representable requested_slots.simps)

lemma vector_copy_empty:
  "size_m other = 0 \<Longrightarrow> vector_copy m w other = vector_copy Unbounded w other"
  by (simp only: vector_copy_def requested_slots_0)

lemma swap_data_size:
  "(case swap_data v w p c of
      (Inl e, v1, w3) \<Rightarrow> (Inl e, v1, w3)
    | (Inr u, v1, w3) \<Rightarrow> (Inr (), v1\<lparr>size_m := f (size_m v1 + 1)\<rparr>, w3)) =
   (case swap_data v w p c of
      (Inl e, v1, w3) \<Rightarrow> (Inl e, v1, w3)
    | (Inr u, v1, w3) \<Rightarrow> (Inr (), v1\<lparr>size_m := f (size_m v + 1)\<rparr>, w3))"
  by (auto simp: swap_data_def split: prod.splits sum.splits)

lemma push_back_representable:
  assumes "representable m (size_m v + 1)"
    "size_m v = capacity_m v \<Longrightarrow> representable m (capacity_m v * 2 + 1)"
  shows "push_back m v w x = push_back Unbounded v w x"
proof (cases "size_m v = capacity_m v")
  case False
  then show ?thesis
    by (simp only: push_back_def if_False size_t_representable [OF assms(1)] size_t.simps)
next
  case True
  note r = assms(2) [OF True]
  show ?thesis
    by (simp only: push_back_def if_P [OF True] Let_def size_t_representable [OF r]
        reallocate_representable [OF r] size_t.simps
        swap_data_size [where f = "size_t m"] swap_data_size [where f = "\<lambda>k. k"]
        size_t_representable [OF assms(1)])
qed




lemma copy_loop_room:
  "uninitialized_copy_loop w d f i n = (Inr u, w') \<Longrightarrow> d = Slot db 0 \<Longrightarrow>
   map_of (heap w) db = Some dblk \<Longrightarrow> i < n \<Longrightarrow> n \<le> length dblk"
proof (induction w d f i n arbitrary: w' dblk rule: uninitialized_copy_loop.induct)
  case (1 w dest "from" i n)
  from "1.prems"(1,4) obtain x w1 where
    l: "load w (ptr_add from i) = Inr x" and
    p: "placement_new w (ptr_add dest i) x = (Inr (), w1)" and
    r: "uninitialized_copy_loop w1 dest from (Suc i) n = (Inr u, w')"
    by (subst (asm) uninitialized_copy_loop.simps)
      (auto simp: rethrow_after_def split: sum.splits prod.splits if_splits)
  from p "1.prems"(2) have
    c: "construct_at (w\<lparr>copy_faults := tl (copy_faults w)\<rparr>) (Slot db i) x = (Inr (), w1)"
    by (simp add: placement_new_Inr)
  with "1.prems"(3) have i: "i < length dblk"
    and m: "map_of (heap w1) db = Some (dblk[i := Some x])"
    by (auto simp: construct_at_def update_conv' split: if_splits)
  show ?case
  proof (cases "Suc i < n")
    case True
    from "1.IH" [OF "1.prems"(4) l p [symmetric] refl r "1.prems"(2) m True]
    show ?thesis by simp
  next
    case False
    with "1.prems"(4) i show ?thesis by simp
  qed
qed

lemma reallocate_Inr_room:
  assumes "reallocate Unbounded v w k = (Inr p, w1)"
  shows "size_m v \<le> k"
proof (cases "size_m v")
  case 0
  then show ?thesis by simp
next
  case (Suc j)
  from assms obtain q w0 u where
    n: "operator_new w k = (Inr q, w0)" and
    c: "uninitialized_copy_loop w0 q (data_m v) 0 (size_m v) = (Inr u, w1)"
    by (auto simp: reallocate_def uninitialized_copy_n_with_reverse_destroy_def rethrow_after_def
        split: prod.splits sum.splits if_splits)
  from operator_new_Inr [OF n] have
    q: "q = Slot (fresh_addr (heap w)) 0" and
    m: "map_of (heap w0) (fresh_addr (heap w)) = Some (replicate k None)"
    by simp_all
  from copy_loop_room [OF c q m] Suc show ?thesis by simp
qed

lemma swap_data_capacity:
  "swap_data v w p c = (Inr u, v', w') \<Longrightarrow> swap_data v w p c' = (Inr u, v'\<lparr>capacity_m := c'\<rparr>, w')"
  by (auto simp: swap_data_def split: prod.splits sum.splits)

lemma elements_capacity: "elements (v\<lparr>capacity_m := c\<rparr>) w = elements v w"
  by (simp add: elements_def index_def size_vec_def)

lemma reallocate_requested:
  "reallocate m v w n = reallocate Unbounded v w (requested_slots m n)"
  by (simp only: reallocate_def requested_slots.simps)

lemma reserve_Inr:
  assumes "reserve m v w n = (Inr u, v', w')" "stores v w xs" "capacity_m v < n"
  shows "capacity_m v' = n \<and> size_m v' = size_m v \<and> length xs \<le> requested_slots m n \<and>
         stores (v'\<lparr>capacity_m := requested_slots m n\<rparr>) w' xs"
proof -
  let ?k = "requested_slots m n"
  from assms(1,3) obtain p w1 where
    r: "reallocate m v w n = (Inr p, w1)" and s: "swap_data v w1 p n = (Inr u, v', w')"
    by (auto simp: reserve_def split: prod.splits sum.splits)
  from r have r': "reallocate Unbounded v w ?k = (Inr p, w1)"
    by (simp only: reallocate_requested [of m])
  from reallocate_Inr_room [OF r'] assms(2) have len: "length xs \<le> ?k"
    by (simp add: stores_def)
  from swap_data_capacity [OF s] have "swap_data v w1 p ?k = (Inr u, v'\<lparr>capacity_m := ?k\<rparr>, w')" .
  with r' have "relocate Unbounded v w ?k = (Inr u, v'\<lparr>capacity_m := ?k\<rparr>, w')"
    by (simp add: relocate_def)
  from relocate_stores [OF this assms(2) len] have "stores (v'\<lparr>capacity_m := ?k\<rparr>) w' xs"
    by (rule conjunct2)
  moreover from swap_data_vec [OF s] have "capacity_m v' = n" "size_m v' = size_m v"
    by simp_all
  ultimately show ?thesis using len by simp
qed

section \<open>The claims\<close>

text \<open>
  Claim C1. Whenever a copy construction of an element throws during \<open>reserve\<close>, during
  \<open>push_back\<close> (the relocation of a growth step, or the construction of the new
  element) or during the copy construction of a vector, the container (for the copy
  constructor: the source) is afterwards what it was before the call: the same members,
  hence the same size and capacity, the same heap, hence the same elements; the new block
  has been released; and the trace of the call is a rollback: the \<open>j\<close> elements that had
  been built in the new block were destroyed in the reverse order of their construction.
  This holds for every state of the vector and of the heap, on every platform.
\<close>

theorem copy_failure_rolls_back:
  "(reserve m v w n = (Inl Copy_throw, v', w') \<longrightarrow>
      v' = v \<and> size_vec v' = size_vec v \<and> capacity v' = capacity v \<and>
      heap w' = heap w \<and> elements v' w' = elements v w \<and>
      (\<exists>j<size_vec v. trace w' = trace w @ rollback_trace (Slot (fresh_addr (heap w)) 0) j)) \<and>
   (push_back m v w x = (Inl Copy_throw, v', w') \<longrightarrow>
      v' = v \<and> size_vec v' = size_vec v \<and> capacity v' = capacity v \<and>
      heap w' = heap w \<and> elements v' w' = elements v w \<and>
      (\<exists>j\<le>size_vec v. trace w' = trace w @ rollback_trace (Slot (fresh_addr (heap w)) 0) j)) \<and>
   (vector_copy m w v = (Inl Copy_throw, w') \<longrightarrow>
      heap w' = heap w \<and> elements v w' = elements v w \<and>
      (\<exists>j<size_vec v. trace w' = trace w @
         rollback_trace (if capacity v \<noteq> 0 then Slot (fresh_addr (heap w)) 0 else nullptr) j))"
proof (intro conjI impI)
  assume a: "reserve m v w n = (Inl Copy_throw, v', w')"
  note r = reserve_rollback [OF a]
  from r show "v' = v" "size_vec v' = size_vec v" "capacity v' = capacity v" "heap w' = heap w"
    by simp_all
  from r have "v' = v" "heap w' = heap w" by blast+
  then show "elements v' w' = elements v w" by (simp only: elements_heap [of w' w])
  from r show "\<exists>j<size_vec v. trace w' = trace w @ rollback_trace (Slot (fresh_addr (heap w)) 0) j"
    by (simp add: size_vec_def)
next
  assume a: "push_back m v w x = (Inl Copy_throw, v', w')"
  note r = push_back_rollback [OF a]
  from r show "v' = v" "size_vec v' = size_vec v" "capacity v' = capacity v" "heap w' = heap w"
    by simp_all
  from r have "v' = v" "heap w' = heap w" by blast+
  then show "elements v' w' = elements v w" by (simp only: elements_heap [of w' w])
  from r show "\<exists>j\<le>size_vec v. trace w' = trace w @ rollback_trace (Slot (fresh_addr (heap w)) 0) j"
    by (simp add: size_vec_def)
next
  assume a: "vector_copy m w v = (Inl Copy_throw, w')"
  note r = vector_copy_rollback [OF a]
  from r show "heap w' = heap w" by simp
  from r have "heap w' = heap w" by blast
  then show "elements v w' = elements v w" by (rule elements_heap)
  from r show "\<exists>j<size_vec v. trace w' = trace w @
         rollback_trace (if capacity v \<noteq> 0 then Slot (fresh_addr (heap w)) 0 else nullptr) j"
    by (simp add: size_vec_def capacity_def)
qed

text \<open>The vector \<open>[1, 2]\<close> in a full block, on a platform with a 64-bit \<open>std::size_t\<close>
  and elements of 4 bytes; the second copy construction from now on throws. \<open>reserve(5)\<close>,
  \<open>push_back(3)\<close> and the copy constructor all fail after one element has been built in the
  new block, and leave the heap as it was.\<close>

theorem copy_failure_rolls_back_witness:
  "reserve (Size_t 64 4) \<lparr>size_m = 2, capacity_m = 2, data_m = Slot 0 0\<rparr>
     \<lparr>heap = [(0, [Some (1::nat), Some 2])], alloc_faults = [], copy_faults = [False, True],
      trace = []\<rparr> 5 =
     (Inl Copy_throw, \<lparr>size_m = 2, capacity_m = 2, data_m = Slot 0 0\<rparr>,
      \<lparr>heap = [(0, [Some 1, Some 2])], alloc_faults = [], copy_faults = [],
       trace = [Constructed (Slot 1 0), Destroyed (Slot 1 0)]\<rparr>) \<and>
   push_back (Size_t 64 4) \<lparr>size_m = 2, capacity_m = 2, data_m = Slot 0 0\<rparr>
     \<lparr>heap = [(0, [Some (1::nat), Some 2])], alloc_faults = [], copy_faults = [False, True],
      trace = []\<rparr> 3 =
     (Inl Copy_throw, \<lparr>size_m = 2, capacity_m = 2, data_m = Slot 0 0\<rparr>,
      \<lparr>heap = [(0, [Some 1, Some 2])], alloc_faults = [], copy_faults = [],
       trace = [Constructed (Slot 1 0), Destroyed (Slot 1 0)]\<rparr>) \<and>
   vector_copy (Size_t 64 4)
     \<lparr>heap = [(0, [Some (1::nat), Some 2])], alloc_faults = [], copy_faults = [False, True],
      trace = []\<rparr> \<lparr>size_m = 2, capacity_m = 2, data_m = Slot 0 0\<rparr> =
     (Inl Copy_throw,
      \<lparr>heap = [(0, [Some 1, Some 2])], alloc_faults = [], copy_faults = [],
       trace = [Constructed (Slot 1 0), Destroyed (Slot 1 0)]\<rparr>) \<and>
   elements \<lparr>size_m = 2, capacity_m = 2, data_m = Slot 0 0\<rparr>
     \<lparr>heap = [(0, [Some (1::nat), Some 2])], alloc_faults = [], copy_faults = [],
       trace = [Constructed (Slot 1 0), Destroyed (Slot 1 0)]\<rparr> =
   elements \<lparr>size_m = 2, capacity_m = 2, data_m = Slot 0 0\<rparr>
     \<lparr>heap = [(0, [Some (1::nat), Some 2])], alloc_faults = [], copy_faults = [False, True],
      trace = []\<rparr>"
proof -
  let ?v = "\<lparr>size_m = 2, capacity_m = 2, data_m = Slot 0 0\<rparr>"
  let ?w = "\<lparr>heap = [(0, [Some (1::nat), Some 2])], alloc_faults = [],
             copy_faults = [False, True], trace = []\<rparr>"
  let ?w' = "\<lparr>heap = [(0, [Some (1::nat), Some 2])], alloc_faults = [], copy_faults = [],
              trace = [Constructed (Slot 1 0), Destroyed (Slot 1 0)]\<rparr>"
  have n5: "representable (Size_t 64 4) 5" and n2: "representable (Size_t 64 4) (size_m ?v)"
    by simp_all
  have r: "reserve (Size_t 64 4) ?v ?w 5 = (Inl Copy_throw, ?v, ?w')"
    unfolding reserve_representable [OF n5] by code_simp
  have "push_back (Size_t 64 4) ?v ?w 3 = push_back Unbounded ?v ?w 3"
    by (rule push_back_representable) simp_all
  also have "\<dots> = (Inl Copy_throw, ?v, ?w')"
    by code_simp
  finally have p: "push_back (Size_t 64 4) ?v ?w 3 = (Inl Copy_throw, ?v, ?w')" .
  have c: "vector_copy (Size_t 64 4) ?w ?v = (Inl Copy_throw, ?w')"
    unfolding vector_copy_representable [OF n2] by code_simp
  note t = copy_failure_rolls_back [of "Size_t 64 4" ?v ?w 5 ?v ?w' 3]
  note e = mp [OF t [THEN conjunct1] r]
  show ?thesis
    by (intro conjI r p c e [THEN conjunct2, THEN conjunct2, THEN conjunct2, THEN conjunct2,
          THEN conjunct1])
qed

text \<open>
  Claim C2. The invariants of the data model, \<open>size <= capacity\<close> and a storage pointer
  that is null exactly when the capacity is 0 and otherwise starts a block of exactly
  \<open>capacity\<close> slots, are claimed for the source of a move construction and for the copy
  of a source with size 0 and capacity above 0. Both fail on the code. The vector
  \<open>[7]\<close> satisfies the invariants, and the source it leaves behind when moved from has
  capacity 1 and a null storage pointer. The emptied vector (one \<open>push_back\<close>, one
  \<open>pop_back\<close>) satisfies them, and its copy has capacity 0 and a storage pointer that is
  not null, on every platform.
\<close>

theorem move_and_copy_break_invariants:
  "invariant \<lparr>size_m = 1, capacity_m = 1, data_m = Slot 0 0\<rparr>
     \<lparr>heap = [(0, [Some (7::nat)])], alloc_faults = [], copy_faults = [],
      trace = [Constructed (Slot 0 0)]\<rparr> \<and>
   \<not> invariant (snd (vector_move \<lparr>size_m = 1, capacity_m = 1, data_m = Slot 0 0\<rparr>))
     \<lparr>heap = [(0, [Some (7::nat)])], alloc_faults = [], copy_faults = [],
      trace = [Constructed (Slot 0 0)]\<rparr> \<and>
   pop_back \<lparr>size_m = 1, capacity_m = 1, data_m = Slot 0 0\<rparr>
     \<lparr>heap = [(0, [Some (7::nat)])], alloc_faults = [], copy_faults = [],
      trace = [Constructed (Slot 0 0)]\<rparr> =
     (Inr (), \<lparr>size_m = 0, capacity_m = 1, data_m = Slot 0 0\<rparr>,
      \<lparr>heap = [(0, [None])], alloc_faults = [], copy_faults = [],
       trace = [Constructed (Slot 0 0), Destroyed (Slot 0 0)]\<rparr>) \<and>
   invariant \<lparr>size_m = 0, capacity_m = 1, data_m = Slot 0 0\<rparr>
     \<lparr>heap = [(0, [None :: nat option])], alloc_faults = [], copy_faults = [],
       trace = [Constructed (Slot 0 0), Destroyed (Slot 0 0)]\<rparr> \<and>
   vector_copy m
     \<lparr>heap = [(0, [None :: nat option])], alloc_faults = [], copy_faults = [],
       trace = [Constructed (Slot 0 0), Destroyed (Slot 0 0)]\<rparr>
     \<lparr>size_m = 0, capacity_m = 1, data_m = Slot 0 0\<rparr> =
     (Inr \<lparr>size_m = 0, capacity_m = 0, data_m = Slot 1 0\<rparr>,
      \<lparr>heap = [(1, []), (0, [None])], alloc_faults = [], copy_faults = [],
       trace = [Constructed (Slot 0 0), Destroyed (Slot 0 0)]\<rparr>) \<and>
   \<not> invariant \<lparr>size_m = 0, capacity_m = 0, data_m = Slot 1 0\<rparr>
      \<lparr>heap = [(1, []), (0, [None :: nat option])], alloc_faults = [], copy_faults = [],
       trace = [Constructed (Slot 0 0), Destroyed (Slot 0 0)]\<rparr>"
proof -
  let ?v = "\<lparr>size_m = 1, capacity_m = 1, data_m = Slot 0 0\<rparr>"
  let ?w = "\<lparr>heap = [(0, [Some (7::nat)])], alloc_faults = [], copy_faults = [],
      trace = [Constructed (Slot 0 0)]\<rparr>"
  let ?e = "\<lparr>size_m = 0, capacity_m = 1, data_m = Slot 0 0\<rparr>"
  let ?w1 = "\<lparr>heap = [(0, [None :: nat option])], alloc_faults = [], copy_faults = [],
       trace = [Constructed (Slot 0 0), Destroyed (Slot 0 0)]\<rparr>"
  let ?c = "\<lparr>size_m = 0, capacity_m = 0, data_m = Slot 1 0\<rparr>"
  let ?w2 = "\<lparr>heap = [(1, []), (0, [None :: nat option])], alloc_faults = [], copy_faults = [],
       trace = [Constructed (Slot 0 0), Destroyed (Slot 0 0)]\<rparr>"
  have "invariant ?v ?w" "\<not> invariant (snd (vector_move ?v)) ?w" "invariant ?e ?w1"
    "\<not> invariant ?c ?w2"
    by (simp_all add: invariant_def vector_move_def)
  moreover have "pop_back ?v ?w = (Inr (), ?e, ?w1)"
    by code_simp
  moreover have "vector_copy m ?w1 ?e = (Inr ?c, ?w2)"
  proof -
    have "vector_copy m ?w1 ?e = vector_copy Unbounded ?w1 ?e"
      by (rule vector_copy_empty) simp
    also have "\<dots> = (Inr ?c, ?w2)"
      by code_simp
    finally show ?thesis .
  qed
  ultimately show ?thesis by blast
qed





text \<open>
  Claim C5. Move construction hands the source's storage, size and capacity to the new
  object, and the claim has it reset the source to the state of a default-constructed
  vector. The constructor resets \<open>data_\<close> and \<open>size_\<close> of the source only: the source keeps
  its capacity. After moving from a vector of capacity 1 the source reports capacity 1
  over a null storage pointer, and a \<open>push_back\<close> on it writes through the null pointer
  (the calls of \<open>push_back\<close> are those of a \<open>vector<int>\<close> on a 64-bit platform).
\<close>

theorem move_keeps_source_capacity:
  "fst (vector_move v) = v \<and>
   size_vec (snd (vector_move v)) = 0 \<and> data_m (snd (vector_move v)) = nullptr \<and>
   capacity (snd (vector_move v)) = capacity v \<and>
   push_back (Size_t 64 4) vector_default \<lparr>heap = [], alloc_faults = [], copy_faults = [], trace = []\<rparr> (7::nat) =
     (Inr (), \<lparr>size_m = 1, capacity_m = 1, data_m = Slot 0 0\<rparr>,
      \<lparr>heap = [(0, [Some 7])], alloc_faults = [], copy_faults = [],
       trace = [Constructed (Slot 0 0)]\<rparr>) \<and>
   vector_move \<lparr>size_m = 1, capacity_m = 1, data_m = Slot 0 0\<rparr> =
     (\<lparr>size_m = 1, capacity_m = 1, data_m = Slot 0 0\<rparr>,
      \<lparr>size_m = 0, capacity_m = 1, data_m = nullptr\<rparr>) \<and>
   snd (vector_move \<lparr>size_m = 1, capacity_m = 1, data_m = Slot 0 0\<rparr>) \<noteq> vector_default \<and>
   push_back (Size_t 64 4) \<lparr>size_m = 0, capacity_m = 1, data_m = nullptr\<rparr>
      \<lparr>heap = [(0, [Some (7::nat)])], alloc_faults = [], copy_faults = [],
       trace = [Constructed (Slot 0 0)]\<rparr> 8 =
     (Inl Undefined, \<lparr>size_m = 0, capacity_m = 1, data_m = nullptr\<rparr>,
      \<lparr>heap = [(0, [Some 7])], alloc_faults = [], copy_faults = [],
       trace = [Constructed (Slot 0 0)]\<rparr>)"
proof -
  have d1: "representable (Size_t 64 4) (size_m vector_default + 1)"
    and d2: "representable (Size_t 64 4) (capacity_m vector_default * 2 + 1)"
    by (simp_all add: vector_default_def)
  have s1: "representable (Size_t 64 4) (size_m \<lparr>size_m = 0, capacity_m = 1, data_m = nullptr\<rparr> + 1)"
    and s2: "representable (Size_t 64 4)
               (capacity_m \<lparr>size_m = 0, capacity_m = 1, data_m = nullptr\<rparr> * 2 + 1)"
    by simp_all
  have "fst (vector_move v) = v" "size_vec (snd (vector_move v)) = 0"
    "data_m (snd (vector_move v)) = nullptr" "capacity (snd (vector_move v)) = capacity v"
    by (simp_all add: vector_move_def size_vec_def capacity_def)
  moreover have
    "push_back (Size_t 64 4) vector_default \<lparr>heap = [], alloc_faults = [], copy_faults = [], trace = []\<rparr> (7::nat) =
     (Inr (), \<lparr>size_m = 1, capacity_m = 1, data_m = Slot 0 0\<rparr>,
      \<lparr>heap = [(0, [Some 7])], alloc_faults = [], copy_faults = [],
       trace = [Constructed (Slot 0 0)]\<rparr>)"
    unfolding push_back_representable [of "Size_t 64 4" vector_default, OF d1 d2] by code_simp
  moreover have m: "vector_move \<lparr>size_m = 1, capacity_m = 1, data_m = Slot 0 0\<rparr> =
     (\<lparr>size_m = 1, capacity_m = 1, data_m = Slot 0 0\<rparr>,
      \<lparr>size_m = 0, capacity_m = 1, data_m = nullptr\<rparr>)"
    by (simp add: vector_move_def)
  moreover have "snd (vector_move \<lparr>size_m = 1, capacity_m = 1, data_m = Slot 0 0\<rparr>) \<noteq> vector_default"
    by (simp add: vector_move_def vector_default_def)
  moreover have "push_back (Size_t 64 4) \<lparr>size_m = 0, capacity_m = 1, data_m = nullptr\<rparr>
      \<lparr>heap = [(0, [Some (7::nat)])], alloc_faults = [], copy_faults = [],
       trace = [Constructed (Slot 0 0)]\<rparr> 8 =
     (Inl Undefined, \<lparr>size_m = 0, capacity_m = 1, data_m = nullptr\<rparr>,
      \<lparr>heap = [(0, [Some 7])], alloc_faults = [], copy_faults = [],
       trace = [Constructed (Slot 0 0)]\<rparr>)"
    unfolding push_back_representable [of "Size_t 64 4" "\<lparr>size_m = 0, capacity_m = 1, data_m = nullptr\<rparr>",
        OF s1 s2]
    by code_simp
  ultimately show ?thesis by blast
qed

text \<open>
  Claim C6. On a well-formed vector, on every platform, \<open>reserve(n)\<close> with
  \<open>n <= capacity\<close> does nothing, and a call that returns normally leaves the size and the
  elements unchanged; the capacity afterwards is exactly \<open>n\<close> when \<open>n > capacity\<close> and at
  least \<open>n\<close> in every case. That the call does return normally when no fault is planned,
  and that the vector is then well formed (its block has \<open>capacity\<close> slots), holds as far
  as \<open>n * sizeof(value_type)\<close> is a value of \<open>std::size_t\<close>; a request that wraps around is
  the subject of the second example below.
\<close>

theorem reserve_capacity_contents:
  assumes "stores v w xs"
  shows "(n \<le> capacity v \<longrightarrow> reserve m v w n = (Inr (), v, w)) \<and>
         (reserve m v w n = (Inr u, v', w') \<longrightarrow>
            (capacity v < n \<longrightarrow> capacity v' = n) \<and> n \<le> capacity v' \<and>
            size_vec v' = size_vec v \<and> elements v' w' = elements v w \<and>
            (representable m n \<longrightarrow> stores v' w' xs)) \<and>
         (representable m n \<and> fault_free w \<longrightarrow> (\<exists>v' w'. reserve m v w n = (Inr (), v', w')))"
proof (intro conjI impI)
  assume "n \<le> capacity v"
  then show "reserve m v w n = (Inr (), v, w)"
    by (simp add: reserve_def capacity_def)
next
  assume a: "reserve m v w n = (Inr u, v', w')"
  have s: "capacity_m v' = max n (capacity_m v) \<and> size_m v' = size_m v \<and>
      (\<exists>k. stores (v'\<lparr>capacity_m := k\<rparr>) w' xs \<and> (representable m n \<longrightarrow> k = capacity_m v'))"
  proof (cases "capacity_m v < n")
    case True
    from reserve_Inr [OF a assms True] requested_slots_representable [of m n] True
    show ?thesis by auto
  next
    case False
    with a have "v' = v" "w' = w"
      by (simp_all add: reserve_def)
    with assms False show ?thesis
      by (auto intro!: exI [of _ "capacity_m v"])
  qed
  then show "n \<le> capacity v'" "size_vec v' = size_vec v"
    by (simp_all add: capacity_def size_vec_def)
  from s show "capacity v' = n" if "capacity v < n"
    using that by (simp add: capacity_def)
  from s obtain k where k: "stores (v'\<lparr>capacity_m := k\<rparr>) w' xs"
    "representable m n \<longrightarrow> k = capacity_m v'"
    by blast
  from stores_elements [OF assms] stores_elements [OF k(1)]
  show "elements v' w' = elements v w"
    by (simp add: elements_capacity)
  show "stores v' w' xs" if "representable m n"
    using k that by simp
next
  assume "representable m n \<and> fault_free w"
  then have r: "representable m n" and f: "fault_free w"
    by simp_all
  have len: "length xs \<le> capacity_m v"
    using assms by (cases "data_m v") (auto simp: stores_def split: option.splits)
  have "\<exists>v' w'. reserve Unbounded v w n = (Inr (), v', w')"
  proof (cases "capacity_m v < n")
    case True
    with relocate_fault_free [OF assms _ f, of n] len show ?thesis
      by (auto simp: reserve_relocate)
  next
    case False
    then show ?thesis by (simp add: reserve_def)
  qed
  then show "\<exists>v' w'. reserve m v w n = (Inr (), v', w')"
    by (simp only: reserve_representable [OF r])
qed

text \<open>The vector \<open>[1, 2]\<close> in a block of three slots, on a platform with a 64-bit
  \<open>std::size_t\<close> and elements of 4 bytes: \<open>reserve(5)\<close> moves it to a block of five slots,
  and \<open>reserve(3)\<close> leaves everything as it is.\<close>

theorem reserve_capacity_contents_witness:
  "stores \<lparr>size_m = 2, capacity_m = 3, data_m = Slot 0 0\<rparr>
     \<lparr>heap = [(0, [Some (1::nat), Some 2, None])], alloc_faults = [], copy_faults = [],
      trace = []\<rparr> [1, 2] \<and>
   fault_free (\<lparr>heap = [(0, [Some (1::nat), Some 2, None])], alloc_faults = [],
      copy_faults = [], trace = []\<rparr>) \<and>
   representable (Size_t 64 4) 5 \<and>
   reserve (Size_t 64 4) \<lparr>size_m = 2, capacity_m = 3, data_m = Slot 0 0\<rparr>
     \<lparr>heap = [(0, [Some (1::nat), Some 2, None])], alloc_faults = [], copy_faults = [],
      trace = []\<rparr> 5 =
     (Inr (), \<lparr>size_m = 2, capacity_m = 5, data_m = Slot 1 0\<rparr>,
      \<lparr>heap = [(1, [Some 1, Some 2, None, None, None])], alloc_faults = [], copy_faults = [],
       trace = [Constructed (Slot 1 0), Constructed (Slot 1 1), Destroyed (Slot 0 1),
                Destroyed (Slot 0 0)]\<rparr>) \<and>
   reserve (Size_t 64 4) \<lparr>size_m = 2, capacity_m = 3, data_m = Slot 0 0\<rparr>
     \<lparr>heap = [(0, [Some (1::nat), Some 2, None])], alloc_faults = [], copy_faults = [],
      trace = []\<rparr> 3 =
     (Inr (), \<lparr>size_m = 2, capacity_m = 3, data_m = Slot 0 0\<rparr>,
      \<lparr>heap = [(0, [Some (1::nat), Some 2, None])], alloc_faults = [], copy_faults = [],
       trace = []\<rparr>) \<and>
   capacity \<lparr>size_m = 2, capacity_m = 5, data_m = Slot 1 0\<rparr> = 5 \<and>
   size_vec \<lparr>size_m = 2, capacity_m = 5, data_m = Slot 1 0\<rparr> =
   size_vec \<lparr>size_m = 2, capacity_m = 3, data_m = Slot 0 0\<rparr> \<and>
   elements \<lparr>size_m = 2, capacity_m = 5, data_m = Slot 1 0\<rparr>
      \<lparr>heap = [(1, [Some (1::nat), Some 2, None, None, None])], alloc_faults = [],
       copy_faults = [],
       trace = [Constructed (Slot 1 0), Constructed (Slot 1 1), Destroyed (Slot 0 1),
                Destroyed (Slot 0 0)]\<rparr> =
   elements \<lparr>size_m = 2, capacity_m = 3, data_m = Slot 0 0\<rparr>
     \<lparr>heap = [(0, [Some (1::nat), Some 2, None])], alloc_faults = [], copy_faults = [],
      trace = []\<rparr> \<and>
   stores \<lparr>size_m = 2, capacity_m = 5, data_m = Slot 1 0\<rparr>
      \<lparr>heap = [(1, [Some (1::nat), Some 2, None, None, None])], alloc_faults = [],
       copy_faults = [],
       trace = [Constructed (Slot 1 0), Constructed (Slot 1 1), Destroyed (Slot 0 1),
                Destroyed (Slot 0 0)]\<rparr> [1, 2]"
proof -
  let ?v = "\<lparr>size_m = 2, capacity_m = 3, data_m = Slot 0 0\<rparr>"
  let ?w = "\<lparr>heap = [(0, [Some (1::nat), Some 2, None])], alloc_faults = [], copy_faults = [],
      trace = []\<rparr>"
  let ?v' = "\<lparr>size_m = 2, capacity_m = 5, data_m = Slot 1 0\<rparr>"
  let ?w' = "\<lparr>heap = [(1, [Some (1::nat), Some 2, None, None, None])], alloc_faults = [],
       copy_faults = [],
       trace = [Constructed (Slot 1 0), Constructed (Slot 1 1), Destroyed (Slot 0 1),
                Destroyed (Slot 0 0)]\<rparr>"
  have s: "stores ?v ?w [1, 2]"
    by (simp add: stores_def)
  have n5: "representable (Size_t 64 4) 5"
    by simp
  have r: "reserve (Size_t 64 4) ?v ?w 5 = (Inr (), ?v', ?w')"
    unfolding reserve_representable [OF n5] by code_simp
  have c: "3 \<le> capacity ?v" and c5: "capacity ?v < 5"
    by (simp_all add: capacity_def)
  note t = reserve_capacity_contents [OF s, of 5 "Size_t 64 4" "()" ?v' ?w']
  note e = mp [OF t [THEN conjunct2, THEN conjunct1] r]
  note n = mp [OF reserve_capacity_contents [OF s, of 3 "Size_t 64 4" "()" ?v' ?w', THEN conjunct1] c]
  have f: "fault_free ?w"
    by (simp add: fault_free_def)
  show ?thesis
    by (intro conjI s f n5 r n mp [OF e [THEN conjunct1] c5]
        e [THEN conjunct2, THEN conjunct2, THEN conjunct1]
        e [THEN conjunct2, THEN conjunct2, THEN conjunct2, THEN conjunct1]
        mp [OF e [THEN conjunct2, THEN conjunct2, THEN conjunct2, THEN conjunct2] n5])
qed

text \<open>The claim concludes that for every \<open>n >= size\<close> the capacity after \<open>reserve(n)\<close>
  is at least \<open>n\<close> and the elements are unchanged. That fails. On the same platform the
  vector \<open>[1, ..., 7]\<close> is asked to \<open>reserve(2^62 + 2)\<close>, and no fault is planned. The
  request \<open>n * sizeof(value_type)\<close> wraps around to 8 bytes, a block of two slots; the third
  element is copied past its end, which is undefined behaviour, and the call neither
  returns a vector of capacity \<open>n\<close> with the seven elements nor reports a failure.\<close>

theorem reserve_request_wraps:
  "stores \<lparr>size_m = 7, capacity_m = 7, data_m = Slot 0 0\<rparr>
     \<lparr>heap = [(0, [Some (1::nat), Some 2, Some 3, Some 4, Some 5, Some 6, Some 7])],
      alloc_faults = [], copy_faults = [], trace = []\<rparr> [1, 2, 3, 4, 5, 6, 7] \<and>
   fault_free \<lparr>heap = [(0, [Some (1::nat), Some 2, Some 3, Some 4, Some 5, Some 6, Some 7])],
      alloc_faults = [], copy_faults = [], trace = []\<rparr> \<and>
   capacity \<lparr>size_m = 7, capacity_m = 7, data_m = Slot 0 0\<rparr> < 2 ^ 62 + 2 \<and>
   \<not> representable (Size_t 64 4) (2 ^ 62 + 2) \<and>
   requested_slots (Size_t 64 4) (2 ^ 62 + 2) = 2 \<and>
   reserve (Size_t 64 4) \<lparr>size_m = 7, capacity_m = 7, data_m = Slot 0 0\<rparr>
     \<lparr>heap = [(0, [Some (1::nat), Some 2, Some 3, Some 4, Some 5, Some 6, Some 7])],
      alloc_faults = [], copy_faults = [], trace = []\<rparr> (2 ^ 62 + 2) =
     (Inl Undefined, \<lparr>size_m = 7, capacity_m = 7, data_m = Slot 0 0\<rparr>,
      \<lparr>heap = [(1, [Some 1, Some 2]),
               (0, [Some 1, Some 2, Some 3, Some 4, Some 5, Some 6, Some 7])],
       alloc_faults = [], copy_faults = [],
       trace = [Constructed (Slot 1 0), Constructed (Slot 1 1)]\<rparr>)"
proof -
  let ?v = "\<lparr>size_m = 7, capacity_m = 7, data_m = Slot 0 0\<rparr>"
  let ?w = "\<lparr>heap = [(0, [Some (1::nat), Some 2, Some 3, Some 4, Some 5, Some 6, Some 7])],
      alloc_faults = [], copy_faults = [], trace = []\<rparr>"
  let ?w1 = "\<lparr>heap = [(1, [Some (1::nat), Some 2]),
               (0, [Some 1, Some 2, Some 3, Some 4, Some 5, Some 6, Some 7])],
       alloc_faults = [], copy_faults = [],
       trace = [Constructed (Slot 1 0), Constructed (Slot 1 1)]\<rparr>"
  have s: "stores ?v ?w [1, 2, 3, 4, 5, 6, 7]"
    by (simp add: stores_def)
  have f: "fault_free ?w"
    by (simp add: fault_free_def)
  have c: "capacity ?v < 2 ^ 62 + 2"
    by (simp add: capacity_def)
  have n: "\<not> representable (Size_t 64 4) (2 ^ 62 + 2)"
    by simp
  have q: "requested_slots (Size_t 64 4) (2 ^ 62 + 2) = 2"
    by simp
  have a: "reallocate Unbounded ?v ?w 2 = (Inl Undefined, ?w1)"
    by code_simp
  have "reallocate (Size_t 64 4) ?v ?w (2 ^ 62 + 2) = reallocate Unbounded ?v ?w 2"
    by (simp only: reallocate_def requested_slots.simps(1) q)
  with a have "reallocate (Size_t 64 4) ?v ?w (2 ^ 62 + 2) = (Inl Undefined, ?w1)"
    by (rule trans [rotated])
  with c have r: "reserve (Size_t 64 4) ?v ?w (2 ^ 62 + 2) = (Inl Undefined, ?v, ?w1)"
    by (simp add: reserve_def capacity_def)
  show ?thesis
    by (intro conjI s f c n q r)
qed

text \<open>
  Claim C7. On a well-formed vector holding \<open>xs\<close>, \<open>erase(first, last)\<close> with
  \<open>first = begin() + fi\<close>, \<open>last = begin() + li\<close> and \<open>fi <= li <= size()\<close> returns normally.
  Afterwards the vector holds the elements before the range followed by the elements
  after it, in their order; the size has gone down by \<open>li - fi\<close>; capacity and storage
  are the same; the handle returned is \<open>begin() + fi\<close>, which is the new \<open>end()\<close> when the
  range reached the end and otherwise the position of the first element that followed
  the range. With \<open>first == last\<close> the vector and the world are left as they were.
\<close>

theorem erase_closes_gap:
  assumes "stores v w xs" "fi \<le> li" "li \<le> length xs"
  shows "\<exists>v' w'. erase v w (ptr_add (begin_vec v) fi) (ptr_add (begin_vec v) li) =
           (Inr (ptr_add (begin_vec v) fi), v', w') \<and>
         stores v' w' (take fi xs @ drop li xs) \<and>
         elements v' w' = map Inr (take fi xs @ drop li xs) \<and>
         size_vec v' = size_vec v - (li - fi) \<and> capacity v' = capacity v \<and>
         begin_vec v' = begin_vec v \<and>
         (li = length xs \<longrightarrow> ptr_add (begin_vec v) fi = end_vec v') \<and>
         (li < length xs \<longrightarrow> index v' w' fi = Inr (xs ! li)) \<and>
         (fi = li \<longrightarrow> v' = v \<and> w' = w)"
proof -
  let ?v' = "v\<lparr>size_m := length xs - (li - fi)\<rparr>"
  from erase_ok [OF assms] obtain w' where
    e: "erase v w (ptr_add (begin_vec v) fi) (ptr_add (begin_vec v) li) =
           (Inr (ptr_add (begin_vec v) fi), ?v', w')" and
    s: "stores ?v' w' (take fi xs @ drop li xs)" and n: "fi = li \<longrightarrow> w' = w"
    by blast
  have sz: "size_m v = length xs"
    using assms(1) by (simp add: stores_def)
  have ix: "index ?v' w' fi = Inr (xs ! li)" if "li < length xs"
  proof -
    have "fi < length (take fi xs @ drop li xs)"
      using that assms(2) by simp
    from stores_index [OF s this] assms(2) that show ?thesis
      by (simp add: nth_append min_def)
  qed
  have same: "?v' = v" if "fi = li"
    using that sz by (cases v) simp
  have en: "ptr_add (begin_vec v) fi = end_vec ?v'" if "li = length xs"
    using that assms(2) by (simp add: end_vec_def begin_vec_def)
  note se = stores_elements [OF s]
  show ?thesis
  proof (intro exI [of _ ?v'] exI [of _ w'] conjI impI)
    show "erase v w (ptr_add (begin_vec v) fi) (ptr_add (begin_vec v) li) =
        (Inr (ptr_add (begin_vec v) fi), ?v', w')" by (rule e)
    show "stores ?v' w' (take fi xs @ drop li xs)" by (rule s)
    show "elements ?v' w' = map Inr (take fi xs @ drop li xs)" by (rule se [THEN conjunct2])
    show "size_vec ?v' = size_vec v - (li - fi)" by (simp add: size_vec_def sz)
    show "capacity ?v' = capacity v" by (simp add: capacity_def)
    show "begin_vec ?v' = begin_vec v" by (simp add: begin_vec_def)
    show "ptr_add (begin_vec v) fi = end_vec ?v'" if "li = length xs" using that by (rule en)
    show "index ?v' w' fi = Inr (xs ! li)" if "li < length xs" using that by (rule ix)
    show "?v' = v" if "fi = li" using that by (rule same)
    show "w' = w" if "fi = li" using that n by blast
  qed
qed

text \<open>In the vector \<open>[1, 2, 3, 4, 5, 6]\<close> the range of the positions 1 and 2 is erased;
  the empty range at the end is erased from the same vector.\<close>

theorem erase_closes_gap_witness:
  "stores \<lparr>size_m = 6, capacity_m = 7, data_m = Slot 2 0\<rparr>
     \<lparr>heap = [(2, [Some (1::nat), Some 2, Some 3, Some 4, Some 5, Some 6, None])],
      alloc_faults = [], copy_faults = [], trace = []\<rparr> [1, 2, 3, 4, 5, 6] \<and>
   (1::nat) \<le> 3 \<and> 3 \<le> length [1::nat, 2, 3, 4, 5, 6] \<and>
   erase \<lparr>size_m = 6, capacity_m = 7, data_m = Slot 2 0\<rparr>
     \<lparr>heap = [(2, [Some (1::nat), Some 2, Some 3, Some 4, Some 5, Some 6, None])],
      alloc_faults = [], copy_faults = [], trace = []\<rparr> (Slot 2 1) (Slot 2 3) =
     (Inr (Slot 2 1), \<lparr>size_m = 4, capacity_m = 7, data_m = Slot 2 0\<rparr>,
      \<lparr>heap = [(2, [Some 1, Some 4, Some 5, Some 6, None, None, None])],
       alloc_faults = [], copy_faults = [],
       trace = [Destroyed (Slot 2 4), Destroyed (Slot 2 5)]\<rparr>) \<and>
   elements \<lparr>size_m = 4, capacity_m = 7, data_m = Slot 2 0\<rparr>
      \<lparr>heap = [(2, [Some (1::nat), Some 4, Some 5, Some 6, None, None, None])],
       alloc_faults = [], copy_faults = [],
       trace = [Destroyed (Slot 2 4), Destroyed (Slot 2 5)]\<rparr> = map Inr [1, 4, 5, 6] \<and>
   index \<lparr>size_m = 4, capacity_m = 7, data_m = Slot 2 0\<rparr>
      \<lparr>heap = [(2, [Some (1::nat), Some 4, Some 5, Some 6, None, None, None])],
       alloc_faults = [], copy_faults = [],
       trace = [Destroyed (Slot 2 4), Destroyed (Slot 2 5)]\<rparr> 1 = Inr 4 \<and>
   (6::nat) \<le> 6 \<and> 6 \<le> length [1::nat, 2, 3, 4, 5, 6] \<and>
   erase \<lparr>size_m = 6, capacity_m = 7, data_m = Slot 2 0\<rparr>
     \<lparr>heap = [(2, [Some (1::nat), Some 2, Some 3, Some 4, Some 5, Some 6, None])],
      alloc_faults = [], copy_faults = [], trace = []\<rparr> (Slot 2 6) (Slot 2 6) =
     (Inr (Slot 2 6), \<lparr>size_m = 6, capacity_m = 7, data_m = Slot 2 0\<rparr>,
      \<lparr>heap = [(2, [Some 1, Some 2, Some 3, Some 4, Some 5, Some 6, None])],
       alloc_faults = [], copy_faults = [], trace = []\<rparr>) \<and>
   Slot 2 6 = end_vec \<lparr>size_m = 6, capacity_m = 7, data_m = Slot 2 0\<rparr>"
proof -
  let ?v = "\<lparr>size_m = 6, capacity_m = 7, data_m = Slot 2 0\<rparr>"
  let ?w = "\<lparr>heap = [(2, [Some (1::nat), Some 2, Some 3, Some 4, Some 5, Some 6, None])],
      alloc_faults = [], copy_faults = [], trace = []\<rparr>"
  let ?v' = "\<lparr>size_m = 4, capacity_m = 7, data_m = Slot 2 0\<rparr>"
  let ?w' = "\<lparr>heap = [(2, [Some (1::nat), Some 4, Some 5, Some 6, None, None, None])],
       alloc_faults = [], copy_faults = [],
       trace = [Destroyed (Slot 2 4), Destroyed (Slot 2 5)]\<rparr>"
  have s: "stores ?v ?w [1, 2, 3, 4, 5, 6]"
    by (simp add: stores_def)
  have h: "(1::nat) \<le> 3" "3 \<le> length [1::nat, 2, 3, 4, 5, 6]"
    by simp_all
  have c: "erase ?v ?w (Slot 2 1) (Slot 2 3) = (Inr (Slot 2 1), ?v', ?w')"
    by code_simp
  have p: "ptr_add (begin_vec ?v) 1 = Slot 2 1" "ptr_add (begin_vec ?v) 3 = Slot 2 3"
    "ptr_add (begin_vec ?v) 6 = Slot 2 6"
    by (simp_all add: begin_vec_def)
  from erase_closes_gap [OF s h] obtain v' w' where
    e: "erase ?v ?w (ptr_add (begin_vec ?v) 1) (ptr_add (begin_vec ?v) 3) =
         (Inr (ptr_add (begin_vec ?v) 1), v', w')" and
    el: "elements v' w' = map Inr (take 1 [1, 2, 3, 4, 5, 6] @ drop 3 [1, 2, 3, 4, 5, 6])" and
    ix: "index v' w' 1 = Inr ([1, 2, 3, 4, 5, 6] ! 3)"
    by auto
  from e have "v' = ?v'" "w' = ?w'"
    by (simp_all only: p c prod.inject)
  with el ix have el': "elements ?v' ?w' = map Inr [1, 4, 5, 6]" and ix': "index ?v' ?w' 1 = Inr 4"
    by simp_all
  have g: "(6::nat) \<le> 6" "6 \<le> length [1::nat, 2, 3, 4, 5, 6]"
    by simp_all
  from erase_closes_gap [OF s g] obtain v2 w2 where
    "erase ?v ?w (ptr_add (begin_vec ?v) 6) (ptr_add (begin_vec ?v) 6) =
         (Inr (ptr_add (begin_vec ?v) 6), v2, w2)"
    "v2 = ?v" "w2 = ?w" "ptr_add (begin_vec ?v) 6 = end_vec v2"
    by auto
  then have n: "erase ?v ?w (Slot 2 6) (Slot 2 6) = (Inr (Slot 2 6), ?v, ?w)"
    and en: "Slot 2 6 = end_vec ?v"
    by (simp_all only: p)
  show ?thesis
    by (intro conjI s h c el' ix' g n en)
qed



text \<open>The pointer passed to \<open>insert\<close> is not a position of the vector any more once the
  call has grown the storage: the block it points into has been released, and \<open>erase\<close> on
  it is undefined.\<close>

lemma erase_at_stale_position:
  "erase_pos \<lparr>size_m = 4, capacity_m = 7, data_m = Slot 2 0\<rparr>
      \<lparr>heap = [(2, [Some (1::nat), Some 9, Some 2, Some 3, None, None, None])],
       alloc_faults = [], copy_faults = [], trace = []\<rparr> (Slot 1 1) =
     (Inl Undefined, \<lparr>size_m = 4, capacity_m = 7, data_m = Slot 2 0\<rparr>,
      \<lparr>heap = [(2, [Some 1, Some 9, Some 2, Some 3, None, None, None])],
       alloc_faults = [], copy_faults = [], trace = []\<rparr>)"
  by code_simp

text \<open>
  Claim C9. On an empty vector \<open>shrink_to_fit\<close> is claimed to release the storage block.
  It sets \<open>data_\<close> to null and \<open>capacity_\<close> to 0 and leaves the heap alone: the block stays
  allocated, and no pointer to it is left, on every platform. Here the vector is the one
  that \<open>push_back(7)\<close> and \<open>pop_back()\<close> leave behind.
\<close>

theorem shrink_to_fit_empty_keeps_block:
  "shrink_to_fit m v w =
     (if size_m v = 0 then (Inr (), v\<lparr>data_m := nullptr, capacity_m := 0\<rparr>, w)
      else if size_m v \<noteq> capacity_m v then relocate m v w (size_m v) else (Inr (), v, w)) \<and>
   shrink_to_fit m \<lparr>size_m = 0, capacity_m = 1, data_m = Slot 0 0\<rparr>
     \<lparr>heap = [(0, [None :: nat option])], alloc_faults = [], copy_faults = [],
       trace = [Constructed (Slot 0 0), Destroyed (Slot 0 0)]\<rparr> =
     (Inr (), \<lparr>size_m = 0, capacity_m = 0, data_m = nullptr\<rparr>,
      \<lparr>heap = [(0, [None])], alloc_faults = [], copy_faults = [],
       trace = [Constructed (Slot 0 0), Destroyed (Slot 0 0)]\<rparr>) \<and>
   operator_delete
     \<lparr>heap = [(0, [None :: nat option])], alloc_faults = [], copy_faults = [],
       trace = [Constructed (Slot 0 0), Destroyed (Slot 0 0)]\<rparr> (Slot 0 0) =
     (Inr (), \<lparr>heap = [], alloc_faults = [], copy_faults = [],
       trace = [Constructed (Slot 0 0), Destroyed (Slot 0 0)]\<rparr>)"
proof -
  have "shrink_to_fit m \<lparr>size_m = 0, capacity_m = 1, data_m = Slot 0 0\<rparr>
     \<lparr>heap = [(0, [None :: nat option])], alloc_faults = [], copy_faults = [],
       trace = [Constructed (Slot 0 0), Destroyed (Slot 0 0)]\<rparr> =
     (Inr (), \<lparr>size_m = 0, capacity_m = 0, data_m = nullptr\<rparr>,
      \<lparr>heap = [(0, [None])], alloc_faults = [], copy_faults = [],
       trace = [Constructed (Slot 0 0), Destroyed (Slot 0 0)]\<rparr>)"
    by (simp add: shrink_to_fit_def empty_vec_def size_vec_def)
  moreover have "operator_delete
     \<lparr>heap = [(0, [None :: nat option])], alloc_faults = [], copy_faults = [],
       trace = [Constructed (Slot 0 0), Destroyed (Slot 0 0)]\<rparr> (Slot 0 0) =
     (Inr (), \<lparr>heap = [], alloc_faults = [], copy_faults = [],
       trace = [Constructed (Slot 0 0), Destroyed (Slot 0 0)]\<rparr>)"
    by code_simp
  ultimately show ?thesis
    using shrink_to_fit_relocate [of m v w] by blast
qed

text \<open>
  Claim C10. For every pair of vectors \<open>a\<close> and \<open>b\<close>, \<open>a.swap(b)\<close> exchanges the complete
  observable states: afterwards \<open>a\<close> has the size, the capacity, the storage pointer and
  the elements that \<open>b\<close> had, and \<open>b\<close> has those of \<open>a\<close>. The operation has no failing
  result and does not touch the heap; swapping twice gives back both original states.
\<close>

theorem swap_exchanges_states:
  "swap a b = (b, a) \<and>
   size_vec (fst (swap a b)) = size_vec b \<and> capacity (fst (swap a b)) = capacity b \<and>
   elements (fst (swap a b)) w = elements b w \<and>
   size_vec (snd (swap a b)) = size_vec a \<and> capacity (snd (swap a b)) = capacity a \<and>
   elements (snd (swap a b)) w = elements a w \<and>
   swap (fst (swap a b)) (snd (swap a b)) = (a, b)"
  by (simp add: swap_eq)

end
